theory Spec2Isabelle
  imports Main "HOL-Library.Word" "HOL-Library.Monad_Syntax"
begin

unbundle bit_operations_syntax

section \<open>Embedding conventions\<close>

text \<open>
  The C source \<^verbatim>\<open>position.c\<close> is embedded function by function. C \<^verbatim>\<open>int\<close> values
  (squares, ranks, files, pieces, colours) are \<^typ>\<open>int\<close>; a bitboard (\<^verbatim>\<open>uint64_t\<close>)
  is a \<^typ>\<open>64 word\<close>; the narrow fields \<^verbatim>\<open>uint8_t\<close> and \<^verbatim>\<open>uint16_t\<close> are integers
  with the truncation \<open>mod 256\<close> and \<open>mod 65536\<close> written where the source casts or
  increments. A computation returns in the option monad: \<open>None\<close> is a fatal stop of the
  process (a failed \<^verbatim>\<open>assert\<close> or \<^verbatim>\<open>BOUNDS\<close>, or an operation C leaves undefined such as
  a shift by 64 or an array read out of range); \<open>Some v\<close> is a normal return of \<open>v\<close>.
\<close>

type_synonym bitboard_t = "64 word"

definition NB_COLOR :: int where [simp]: "NB_COLOR = 2"
definition NB_PIECE :: int where [simp]: "NB_PIECE = 6"
definition NB_SQUARE :: int where [simp]: "NB_SQUARE = 64"
definition NB_FILE :: int where [simp]: "NB_FILE = 8"
definition NB_RANK :: int where [simp]: "NB_RANK = 8"

definition WHITE :: int where [simp]: "WHITE = 0"
definition BLACK :: int where [simp]: "BLACK = 1"

text \<open>The piece order is the one of \<^verbatim>\<open>PieceLabel\<close>: \<^verbatim>\<open>"NBRQKP."\<close>.\<close>

definition KNIGHT :: int where [simp]: "KNIGHT = 0"
definition BISHOP :: int where [simp]: "BISHOP = 1"
definition ROOK :: int where [simp]: "ROOK = 2"
definition QUEEN :: int where [simp]: "QUEEN = 3"
definition KING :: int where [simp]: "KING = 4"
definition PAWN :: int where [simp]: "PAWN = 5"

definition RANK_1 :: int where [simp]: "RANK_1 = 0"
definition RANK_3 :: int where [simp]: "RANK_3 = 2"
definition RANK_6 :: int where [simp]: "RANK_6 = 5"
definition RANK_8 :: int where [simp]: "RANK_8 = 7"
definition FILE_A :: int where [simp]: "FILE_A = 0"
definition FILE_C :: int where [simp]: "FILE_C = 2"
definition FILE_D :: int where [simp]: "FILE_D = 3"
definition FILE_F :: int where [simp]: "FILE_F = 5"
definition FILE_G :: int where [simp]: "FILE_G = 6"
definition FILE_H :: int where [simp]: "FILE_H = 7"

definition UP :: int where [simp]: "UP = 8"
definition DOWN :: int where [simp]: "DOWN = - 8"
definition LEFT :: int where [simp]: "LEFT = - 1"
definition RIGHT :: int where [simp]: "RIGHT = 1"

section \<open>Assertions\<close>

definition assert :: "bool \<Rightarrow> unit option" where
  "assert c = (if c then Some () else None)"

text \<open>
  Modelled from the spec: the macro \<^verbatim>\<open>BOUNDS\<close> of \<^verbatim>\<open>util.h\<close> is not among the sources.
  Section 7 of the specification treats out-of-range indices as fatal defensive
  assertions, so \<^verbatim>\<open>BOUNDS(v, ub)\<close> stops unless \<open>0 \<le> v < ub\<close>.
\<close>

definition BOUNDS :: "int \<Rightarrow> int \<Rightarrow> unit option" where
  "BOUNDS v ub = assert (0 \<le> v \<and> v < ub)"

text \<open>A loop \<^verbatim>\<open>while (b) { s = bb_pop_lsb(&b); ... }\<close> runs its body over the squares of \<open>b\<close>.\<close>

primrec foldM :: "('b \<Rightarrow> 'a \<Rightarrow> 'a option) \<Rightarrow> 'b list \<Rightarrow> 'a \<Rightarrow> 'a option" where
  "foldM f [] a = Some a"
| "foldM f (x # xs) a = do { a' \<leftarrow> f x a; foldM f xs a' }"

section \<open>The bitboard collaborator\<close>

text \<open>
  Modelled from the spec: \<^verbatim>\<open>bitboard.c\<close> is not among the sources. Section 6 lists what
  it offers: square indexing (file and rank composition), bit test, set and clear, lowest
  and highest set bit, population count, the "multiple bits set" test, directional shift,
  the King, Knight and Pawn attack masks, the ray and segment tables, and the
  occupancy-dependent sliding attacks. Each is defined here by its chess meaning; an index
  out of range stops the computation.
\<close>

definition bb_squares :: "bitboard_t \<Rightarrow> int list" where
  "bb_squares b = filter (\<lambda>s. bit b (nat s)) [0..63]"

definition bb_of :: "(int \<Rightarrow> bool) \<Rightarrow> bitboard_t" where
  "bb_of P = fold (\<lambda>s w. if P s then set_bit (nat s) w else w) [0..63] 0"

definition bb_test :: "bitboard_t \<Rightarrow> int \<Rightarrow> bool option" where
  "bb_test b square = do { BOUNDS square NB_SQUARE; Some (bit b (nat square)) }"

definition bb_set :: "bitboard_t \<Rightarrow> int \<Rightarrow> bitboard_t option" where
  "bb_set b square = do { BOUNDS square NB_SQUARE; Some (set_bit (nat square) b) }"

definition bb_clear :: "bitboard_t \<Rightarrow> int \<Rightarrow> bitboard_t option" where
  "bb_clear b square = do { BOUNDS square NB_SQUARE; Some (unset_bit (nat square) b) }"

definition bb_lsb :: "bitboard_t \<Rightarrow> int option" where
  "bb_lsb b = (case bb_squares b of [] \<Rightarrow> None | s # _ \<Rightarrow> Some s)"

definition bb_msb :: "bitboard_t \<Rightarrow> int option" where
  "bb_msb b = (case rev (bb_squares b) of [] \<Rightarrow> None | s # _ \<Rightarrow> Some s)"

definition bb_count :: "bitboard_t \<Rightarrow> int" where
  "bb_count b = int (length (bb_squares b))"

definition bb_several :: "bitboard_t \<Rightarrow> bool" where
  "bb_several b = (1 < length (bb_squares b))"

definition bb_shift :: "bitboard_t \<Rightarrow> int \<Rightarrow> bitboard_t option" where
  "bb_shift b i = do {
     assert (- 64 < i \<and> i < 64);
     Some (if 0 < i then push_bit (nat i) b else drop_bit (nat (- i)) b)
   }"

definition square_from :: "int \<Rightarrow> int \<Rightarrow> int option" where
  "square_from rank file = do {
     BOUNDS rank NB_RANK;
     BOUNDS file NB_FILE;
     Some (NB_FILE * rank + file)
   }"

definition rank_of :: "int \<Rightarrow> int option" where
  "rank_of square = do { BOUNDS square NB_SQUARE; Some (square div NB_FILE) }"

definition file_of :: "int \<Rightarrow> int option" where
  "file_of square = do { BOUNDS square NB_SQUARE; Some (square mod NB_FILE) }"

definition opposite :: "int \<Rightarrow> int option" where
  "opposite color = do { BOUNDS color NB_COLOR; Some (1 - color) }"

definition push_inc :: "int \<Rightarrow> int option" where
  "push_inc color = do { BOUNDS color NB_COLOR; Some (if color = WHITE then UP else DOWN) }"

subsection \<open>Geometry of the board\<close>

definition sq_file :: "int \<Rightarrow> int" where
  "sq_file s = s mod 8"

definition sq_rank :: "int \<Rightarrow> int" where
  "sq_rank s = s div 8"

definition king_step :: "int \<Rightarrow> int \<Rightarrow> bool" where
  "king_step a b =
     (a \<noteq> b \<and> \<bar>sq_file a - sq_file b\<bar> \<le> 1 \<and> \<bar>sq_rank a - sq_rank b\<bar> \<le> 1)"

definition knight_jump :: "int \<Rightarrow> int \<Rightarrow> bool" where
  "knight_jump a b =
     ((\<bar>sq_file a - sq_file b\<bar> = 1 \<and> \<bar>sq_rank a - sq_rank b\<bar> = 2)
      \<or> (\<bar>sq_file a - sq_file b\<bar> = 2 \<and> \<bar>sq_rank a - sq_rank b\<bar> = 1))"

text \<open>A pawn of \<open>color\<close> on \<open>a\<close> captures on \<open>b\<close>: one rank forward, one file aside.\<close>

definition pawn_capture :: "int \<Rightarrow> int \<Rightarrow> int \<Rightarrow> bool" where
  "pawn_capture color a b =
     (sq_rank b = sq_rank a + (if color = WHITE then 1 else - 1)
      \<and> \<bar>sq_file a - sq_file b\<bar> = 1)"

definition rook_line :: "int \<Rightarrow> int \<Rightarrow> bool" where
  "rook_line a b = (a \<noteq> b \<and> (sq_file a = sq_file b \<or> sq_rank a = sq_rank b))"

definition bishop_line :: "int \<Rightarrow> int \<Rightarrow> bool" where
  "bishop_line a b = (a \<noteq> b \<and> \<bar>sq_file a - sq_file b\<bar> = \<bar>sq_rank a - sq_rank b\<bar>)"

definition sq_dist :: "int \<Rightarrow> int \<Rightarrow> int" where
  "sq_dist a b = max \<bar>sq_file a - sq_file b\<bar> \<bar>sq_rank a - sq_rank b\<bar>"

text \<open>The square \<open>k\<close> steps from \<open>a\<close> towards \<open>b\<close> (file and rank each move by the sign).\<close>

definition sq_towards :: "int \<Rightarrow> int \<Rightarrow> int \<Rightarrow> int" where
  "sq_towards a b k =
     8 * (sq_rank a + k * sgn (sq_rank b - sq_rank a))
       + (sq_file a + k * sgn (sq_file b - sq_file a))"

definition on_board_towards :: "int \<Rightarrow> int \<Rightarrow> int \<Rightarrow> bool" where
  "on_board_towards a b k =
     (0 \<le> sq_rank a + k * sgn (sq_rank b - sq_rank a)
      \<and> sq_rank a + k * sgn (sq_rank b - sq_rank a) < 8
      \<and> 0 \<le> sq_file a + k * sgn (sq_file b - sq_file a)
      \<and> sq_file a + k * sgn (sq_file b - sq_file a) < 8)"

text \<open>The squares strictly between two squares of one rank, file or diagonal.\<close>

definition between_sqs :: "int \<Rightarrow> int \<Rightarrow> int list" where
  "between_sqs a b =
     (if rook_line a b \<or> bishop_line a b
      then map (sq_towards a b) [1..sq_dist a b - 1]
      else [])"

text \<open>The squares after \<open>a\<close> in the direction of \<open>b\<close>, up to the edge of the board.\<close>

definition ray_sqs :: "int \<Rightarrow> int \<Rightarrow> int list" where
  "ray_sqs a b =
     (if rook_line a b \<or> bishop_line a b
      then map (sq_towards a b) (filter (on_board_towards a b) [1..7])
      else [])"

subsection \<open>Tables\<close>

definition File :: "int \<Rightarrow> bitboard_t option" where
  "File f = do { BOUNDS f NB_FILE; Some (bb_of (\<lambda>s. sq_file s = f)) }"

definition Rank :: "int \<Rightarrow> bitboard_t option" where
  "Rank r = do { BOUNDS r NB_RANK; Some (bb_of (\<lambda>s. sq_rank s = r)) }"

definition KingAttacks :: "int \<Rightarrow> bitboard_t option" where
  "KingAttacks square = do { BOUNDS square NB_SQUARE; Some (bb_of (king_step square)) }"

definition KnightAttacks :: "int \<Rightarrow> bitboard_t option" where
  "KnightAttacks square = do { BOUNDS square NB_SQUARE; Some (bb_of (knight_jump square)) }"

definition PawnAttacks :: "int \<Rightarrow> int \<Rightarrow> bitboard_t option" where
  "PawnAttacks color square = do {
     BOUNDS color NB_COLOR;
     BOUNDS square NB_SQUARE;
     Some (bb_of (pawn_capture color square))
   }"

text \<open>\<open>Segment a b\<close>: the squares from \<open>a\<close> to \<open>b\<close>, both included, when they share a line.\<close>

definition Segment :: "int \<Rightarrow> int \<Rightarrow> bitboard_t option" where
  "Segment a b = do {
     BOUNDS a NB_SQUARE;
     BOUNDS b NB_SQUARE;
     Some (if rook_line a b \<or> bishop_line a b
           then bb_of (\<lambda>s. s = a \<or> s = b \<or> s \<in> set (between_sqs a b))
           else 0)
   }"

text \<open>\<open>Ray a b\<close>: the squares after \<open>a\<close> through \<open>b\<close> to the edge, when they share a line.\<close>

definition Ray :: "int \<Rightarrow> int \<Rightarrow> bitboard_t option" where
  "Ray a b = do {
     BOUNDS a NB_SQUARE;
     BOUNDS b NB_SQUARE;
     Some (bb_of (\<lambda>s. s \<in> set (ray_sqs a b)))
   }"

text \<open>
  Sliding attacks: a rook on \<open>square\<close> attacks every square of its rank and file up to and
  including the first occupied one; a bishop likewise on its diagonals.
\<close>

definition slide_free :: "bitboard_t \<Rightarrow> int \<Rightarrow> int \<Rightarrow> bool" where
  "slide_free occ a b = list_all (\<lambda>s. \<not> bit occ (nat s)) (between_sqs a b)"

definition bb_rook_attacks :: "int \<Rightarrow> bitboard_t \<Rightarrow> bitboard_t option" where
  "bb_rook_attacks square occ = do {
     BOUNDS square NB_SQUARE;
     Some (bb_of (\<lambda>t. rook_line square t \<and> slide_free occ square t))
   }"

definition bb_bishop_attacks :: "int \<Rightarrow> bitboard_t \<Rightarrow> bitboard_t option" where
  "bb_bishop_attacks square occ = do {
     BOUNDS square NB_SQUARE;
     Some (bb_of (\<lambda>t. bishop_line square t \<and> slide_free occ square t))
   }"

section \<open>The position\<close>

text \<open>
  Modelled from the spec: \<^verbatim>\<open>position.h\<close> is not among the sources. The fields are those
  of Section 3 and those \<^verbatim>\<open>position.c\<close> reads and writes. A move carries its origin, its
  destination and its promotion piece (\<^verbatim>\<open>NB_PIECE\<close> when there is none).
\<close>

record move_t =
  move_from :: int
  move_to :: int
  move_prom :: int

record Position =
  byColor :: "bitboard_t list"
  byPiece :: "bitboard_t list"
  castleRooks :: bitboard_t
  key :: "64 word"
  attacked :: bitboard_t
  checkers :: bitboard_t
  pins :: bitboard_t
  lastMove :: move_t
  fullMove :: int
  turn :: int
  epSquare :: int
  rule50 :: int
  chess960 :: bool

text \<open>\<^verbatim>\<open>(Position){0}\<close>: every field zero.\<close>

definition Position_zero :: Position where
  "Position_zero =
     \<lparr> byColor = [0, 0], byPiece = [0, 0, 0, 0, 0, 0], castleRooks = 0, key = 0,
       attacked = 0, checkers = 0, pins = 0,
       lastMove = \<lparr> move_from = 0, move_to = 0, move_prom = 0 \<rparr>,
       fullMove = 0, turn = 0, epSquare = 0, rule50 = 0, chess960 = False \<rparr>"

text \<open>Reading \<^verbatim>\<open>a[i]\<close>: out of range is undefined in C.\<close>

definition at :: "'a list \<Rightarrow> int \<Rightarrow> 'a option" where
  "at xs i = (if 0 \<le> i \<and> i < int (length xs) then Some (xs ! nat i) else None)"

definition pos_pieces :: "Position \<Rightarrow> bitboard_t option" where
  "pos_pieces pos = do {
     w \<leftarrow> at (byColor pos) WHITE;
     b \<leftarrow> at (byColor pos) BLACK;
     assert (w AND b = 0);
     Some (w OR b)
   }"

definition pos_pieces_cp :: "Position \<Rightarrow> int \<Rightarrow> int \<Rightarrow> bitboard_t option" where
  "pos_pieces_cp pos color piece = do {
     BOUNDS color NB_COLOR;
     BOUNDS piece NB_PIECE;
     c \<leftarrow> at (byColor pos) color;
     p \<leftarrow> at (byPiece pos) piece;
     Some (c AND p)
   }"

definition pos_pieces_cpp :: "Position \<Rightarrow> int \<Rightarrow> int \<Rightarrow> int \<Rightarrow> bitboard_t option" where
  "pos_pieces_cpp pos color p1 p2 = do {
     BOUNDS color NB_COLOR;
     BOUNDS p1 NB_PIECE;
     BOUNDS p2 NB_PIECE;
     c \<leftarrow> at (byColor pos) color;
     b1 \<leftarrow> at (byPiece pos) p1;
     b2 \<leftarrow> at (byPiece pos) p2;
     Some (c AND (b1 OR b2))
   }"

definition pos_insufficient_material :: "Position \<Rightarrow> bool option" where
  "pos_insufficient_material pos = do {
     occ \<leftarrow> pos_pieces pos;
     pawns \<leftarrow> at (byPiece pos) PAWN;
     rooks \<leftarrow> at (byPiece pos) ROOK;
     queens \<leftarrow> at (byPiece pos) QUEEN;
     Some (bb_count occ \<le> 3 \<and> pawns = 0 \<and> rooks = 0 \<and> queens = 0)
   }"

section \<open>The hash constants\<close>

text \<open>
  The tables \<^verbatim>\<open>ZobristKey\<close>, \<^verbatim>\<open>ZobristCastling\<close>, \<^verbatim>\<open>ZobristEnPassant\<close> and
  \<^verbatim>\<open>ZobristTurn\<close> are filled once by \<^verbatim>\<open>zobrist_init\<close> from \<^verbatim>\<open>prng\<close>, which is not among
  the sources: the constants are a parameter \<open>Z\<close> of every function that reads them.
\<close>

record zobrist =
  ZobristKey :: "int \<Rightarrow> int \<Rightarrow> int \<Rightarrow> 64 word"
  ZobristCastling :: "int \<Rightarrow> 64 word"
  ZobristEnPassant :: "int \<Rightarrow> 64 word"
  ZobristTurn :: "64 word"

definition zobrist_castling :: "zobrist \<Rightarrow> bitboard_t \<Rightarrow> 64 word" where
  "zobrist_castling Z castleRooks' =
     fold (\<lambda>s k. k XOR ZobristCastling Z s) (bb_squares castleRooks') 0"

text \<open>\<^verbatim>\<open>ZobristEnPassant\<close> has \<^verbatim>\<open>NB_SQUARE + 1\<close> entries; the last is the one of "none".\<close>

definition zobrist_en_passant :: "zobrist \<Rightarrow> int \<Rightarrow> 64 word option" where
  "zobrist_en_passant Z square = do {
     BOUNDS square (NB_SQUARE + 1);
     Some (ZobristEnPassant Z square)
   }"

section \<open>Squares of the position\<close>

definition clear_square :: "zobrist \<Rightarrow> Position \<Rightarrow> int \<Rightarrow> int \<Rightarrow> int \<Rightarrow> Position option" where
  "clear_square Z pos color piece square = do {
     BOUNDS color NB_COLOR;
     BOUNDS piece NB_PIECE;
     BOUNDS square NB_SQUARE;
     c \<leftarrow> at (byColor pos) color;
     c' \<leftarrow> bb_clear c square;
     p \<leftarrow> at (byPiece pos) piece;
     p' \<leftarrow> bb_clear p square;
     Some (pos\<lparr> byColor := (byColor pos)[nat color := c'],
                byPiece := (byPiece pos)[nat piece := p'],
                key := key pos XOR ZobristKey Z color piece square \<rparr>)
   }"

definition set_square :: "zobrist \<Rightarrow> Position \<Rightarrow> int \<Rightarrow> int \<Rightarrow> int \<Rightarrow> Position option" where
  "set_square Z pos color piece square = do {
     BOUNDS color NB_COLOR;
     BOUNDS piece NB_PIECE;
     BOUNDS square NB_SQUARE;
     c \<leftarrow> at (byColor pos) color;
     c' \<leftarrow> bb_set c square;
     p \<leftarrow> at (byPiece pos) piece;
     p' \<leftarrow> bb_set p square;
     Some (pos\<lparr> byColor := (byColor pos)[nat color := c'],
                byPiece := (byPiece pos)[nat piece := p'],
                key := key pos XOR ZobristKey Z color piece square \<rparr>)
   }"

definition pos_king_square :: "Position \<Rightarrow> int \<Rightarrow> int option" where
  "pos_king_square pos color = do {
     k \<leftarrow> pos_pieces_cp pos color KING;
     assert (bb_count k = 1);
     bb_lsb k
   }"

definition pos_color_on :: "Position \<Rightarrow> int \<Rightarrow> int option" where
  "pos_color_on pos square = do {
     occ \<leftarrow> pos_pieces pos;
     t \<leftarrow> bb_test occ square;
     assert t;
     w \<leftarrow> at (byColor pos) WHITE;
     tw \<leftarrow> bb_test w square;
     Some (if tw then WHITE else BLACK)
   }"

text \<open>The loop of \<^verbatim>\<open>pos_piece_on\<close> over the pieces still to try; it ends on \<^verbatim>\<open>NB_PIECE\<close>.\<close>

primrec piece_loop :: "Position \<Rightarrow> int \<Rightarrow> int list \<Rightarrow> int option" where
  "piece_loop pos square [] = Some NB_PIECE"
| "piece_loop pos square (piece # rest) = do {
     b \<leftarrow> at (byPiece pos) piece;
     t \<leftarrow> bb_test b square;
     if t then Some piece else piece_loop pos square rest
   }"

definition pos_piece_on :: "Position \<Rightarrow> int \<Rightarrow> int option" where
  "pos_piece_on pos square = do {
     BOUNDS square NB_SQUARE;
     piece_loop pos square [KNIGHT, BISHOP, ROOK, QUEEN, KING, PAWN]
   }"

section \<open>The invariant engine\<close>

text \<open>The body of the loop over \<^verbatim>\<open>pinners\<close>.\<close>

definition pin_step :: "Position \<Rightarrow> int \<Rightarrow> int \<Rightarrow> int \<Rightarrow> bitboard_t \<Rightarrow> bitboard_t option" where
  "pin_step pos us king pinner pins' = do {
     seg \<leftarrow> Segment king pinner;
     occ \<leftarrow> pos_pieces pos;
     skewered \<leftarrow> bb_clear (seg AND occ) king;
     skewered \<leftarrow> bb_clear skewered pinner;
     ours \<leftarrow> at (byColor pos) us;
     Some (if \<not> bb_several skewered \<and> skewered AND ours \<noteq> 0
           then pins' OR skewered else pins')
   }"

definition finish_pins :: "Position \<Rightarrow> int \<Rightarrow> int \<Rightarrow> int \<Rightarrow> bitboard_t option" where
  "finish_pins pos us them king = do {
     rq \<leftarrow> pos_pieces_cpp pos them ROOK QUEEN;
     ra \<leftarrow> bb_rook_attacks king 0;
     bq \<leftarrow> pos_pieces_cpp pos them BISHOP QUEEN;
     ba \<leftarrow> bb_bishop_attacks king 0;
     let pinners = (rq AND ra) OR (bq AND ba);
     foldM (pin_step pos us king) (bb_squares pinners) 0
   }"

definition finish_attacked :: "Position \<Rightarrow> int \<Rightarrow> bitboard_t option" where
  "finish_attacked pos them = do {
     tk \<leftarrow> pos_king_square pos them;
     a \<leftarrow> KingAttacks tk;
     knights \<leftarrow> pos_pieces_cp pos them KNIGHT;
     a \<leftarrow> foldM (\<lambda>s a. do { n \<leftarrow> KnightAttacks s; Some (a OR n) })
            (bb_squares knights) a;
     pawns \<leftarrow> pos_pieces_cp pos them PAWN;
     fa \<leftarrow> File FILE_A;
     push \<leftarrow> push_inc them;
     l \<leftarrow> bb_shift (pawns AND NOT fa) (push + LEFT);
     let a = a OR l;
     fh \<leftarrow> File FILE_H;
     push \<leftarrow> push_inc them;
     r \<leftarrow> bb_shift (pawns AND NOT fh) (push + RIGHT);
     let a = a OR r;
     all \<leftarrow> pos_pieces pos;
     us' \<leftarrow> opposite them;
     k \<leftarrow> pos_pieces_cp pos us' KING;
     let occ = all XOR k;
     rookMovers \<leftarrow> pos_pieces_cpp pos them ROOK QUEEN;
     a \<leftarrow> foldM (\<lambda>s a. do { n \<leftarrow> bb_rook_attacks s occ; Some (a OR n) })
            (bb_squares rookMovers) a;
     bishopMovers \<leftarrow> pos_pieces_cpp pos them BISHOP QUEEN;
     foldM (\<lambda>s a. do { n \<leftarrow> bb_bishop_attacks s occ; Some (a OR n) })
       (bb_squares bishopMovers) a
   }"

definition finish_checkers :: "Position \<Rightarrow> int \<Rightarrow> int \<Rightarrow> int \<Rightarrow> bitboard_t \<Rightarrow> bitboard_t option" where
  "finish_checkers pos us them king attacked' = do {
     t \<leftarrow> bb_test attacked' king;
     if t then do {
       pawns \<leftarrow> pos_pieces_cp pos them PAWN;
       pa \<leftarrow> PawnAttacks us king;
       knights \<leftarrow> pos_pieces_cp pos them KNIGHT;
       na \<leftarrow> KnightAttacks king;
       rq \<leftarrow> pos_pieces_cpp pos them ROOK QUEEN;
       occ \<leftarrow> pos_pieces pos;
       ra \<leftarrow> bb_rook_attacks king occ;
       bq \<leftarrow> pos_pieces_cpp pos them BISHOP QUEEN;
       ba \<leftarrow> bb_bishop_attacks king occ;
       let checkers' = (pawns AND pa) OR (knights AND na) OR (rq AND ra) OR (bq AND ba);
       tk \<leftarrow> pos_pieces_cp pos them KING;
       ka \<leftarrow> KingAttacks king;
       assert (tk AND ka = 0);
       assert (checkers' \<noteq> 0 \<and> bb_count checkers' \<le> 2);
       Some checkers'
     } else Some 0
   }"

definition finish :: "Position \<Rightarrow> Position option" where
  "finish pos = do {
     let us = turn pos;
     them \<leftarrow> opposite us;
     king \<leftarrow> pos_king_square pos us;
     pins' \<leftarrow> finish_pins pos us them king;
     attacked' \<leftarrow> finish_attacked pos them;
     checkers' \<leftarrow> finish_checkers pos us them king attacked';
     Some (pos\<lparr> pins := pins', attacked := attacked', checkers := checkers' \<rparr>)
   }"

definition pos_move_is_capture :: "Position \<Rightarrow> move_t \<Rightarrow> bool option" where
  "pos_move_is_capture pos m = do {
     them \<leftarrow> opposite (turn pos);
     theirs \<leftarrow> at (byColor pos) them;
     bb_test theirs (move_to m)
   }"

definition pos_move_is_castling :: "Position \<Rightarrow> move_t \<Rightarrow> bool option" where
  "pos_move_is_castling pos m = do {
     ours \<leftarrow> at (byColor pos) (turn pos);
     bb_test ours (move_to m)
   }"

section \<open>Playing a move\<close>

text \<open>The capture of the piece on the destination square, if any.\<close>

definition move_capture ::
  "zobrist \<Rightarrow> Position \<Rightarrow> int \<Rightarrow> int \<Rightarrow> int \<Rightarrow> int \<Rightarrow> Position option" where
  "move_capture Z pos us piece capture to =
     (if capture \<noteq> NB_PIECE then do {
        assert (capture \<noteq> KING);
        ours \<leftarrow> at (byColor pos) us;
        t \<leftarrow> bb_test ours to;
        tc \<leftarrow> bb_test (castleRooks pos) to;
        assert (\<not> t \<or> (tc \<and> piece = KING));
        let pos = pos\<lparr> rule50 := 0 \<rparr>;
        c \<leftarrow> pos_color_on pos to;
        pos \<leftarrow> clear_square Z pos c capture to;
        Some (pos\<lparr> castleRooks := castleRooks pos AND NOT (push_bit (nat to) 1) \<rparr>)
      } else Some pos)"

text \<open>The branch of a pawn: the en-passant square, the en-passant capture, the promotion.\<close>

definition move_pawn ::
  "zobrist \<Rightarrow> Position \<Rightarrow> Position \<Rightarrow> int \<Rightarrow> int \<Rightarrow> int \<Rightarrow> int \<Rightarrow> int \<Rightarrow> int
     \<Rightarrow> Position option" where
  "move_pawn Z before pos us them piece from to prom = do {
     push \<leftarrow> push_inc us;
     let pos = pos\<lparr> rule50 := 0 \<rparr>;
     pos \<leftarrow> (if to = from + 2 * push then do {
                pa \<leftarrow> PawnAttacks us (from + push);
                tp \<leftarrow> pos_pieces_cp pos them PAWN;
                Some (if pa AND tp \<noteq> 0
                      then pos\<lparr> epSquare := (from + push) mod 256 \<rparr> else pos)
              } else Some pos);
     if to = epSquare before then clear_square Z pos them piece (to - push)
     else do {
       r \<leftarrow> rank_of to;
       if r = RANK_8 \<or> r = RANK_1 then do {
         pos \<leftarrow> clear_square Z pos us piece to;
         set_square Z pos us prom to
       } else Some pos
     }
   }"

text \<open>The branch of a king: the castling rights, and castling itself (king takes rook).\<close>

definition move_king ::
  "zobrist \<Rightarrow> Position \<Rightarrow> Position \<Rightarrow> int \<Rightarrow> int \<Rightarrow> int \<Rightarrow> Position option" where
  "move_king Z before pos us from to = do {
     back \<leftarrow> Rank (us * RANK_8);
     let pos = pos\<lparr> castleRooks := castleRooks pos AND NOT back \<rparr>;
     ours \<leftarrow> at (byColor before) us;
     t \<leftarrow> bb_test ours to;
     if t then do {
       p \<leftarrow> pos_piece_on before to;
       assert (p = ROOK);
       rank \<leftarrow> rank_of from;
       pos \<leftarrow> clear_square Z pos us KING to;
       ks \<leftarrow> square_from rank (if to > from then FILE_G else FILE_C);
       pos \<leftarrow> set_square Z pos us KING ks;
       rs \<leftarrow> square_from rank (if to > from then FILE_F else FILE_D);
       set_square Z pos us ROOK rs
     } else Some pos
   }"

text \<open>The move of the piece itself: the two branches on \<^verbatim>\<open>piece <= QUEEN\<close>.\<close>

definition move_piece ::
  "zobrist \<Rightarrow> Position \<Rightarrow> Position \<Rightarrow> int \<Rightarrow> int \<Rightarrow> int \<Rightarrow> int \<Rightarrow> int \<Rightarrow> int
     \<Rightarrow> Position option" where
  "move_piece Z before pos us them piece from to prom =
     (if piece \<le> QUEEN then do {
        pos \<leftarrow> clear_square Z pos us piece from;
        pos \<leftarrow> set_square Z pos us piece to;
        Some (pos\<lparr> castleRooks := castleRooks pos AND NOT (push_bit (nat from) 1) \<rparr>)
      } else do {
        pos \<leftarrow> clear_square Z pos us piece from;
        pos \<leftarrow> set_square Z pos us piece to;
        if piece = PAWN then move_pawn Z before pos us them piece from to prom
        else if piece = KING then move_king Z before pos us from to
        else Some pos
      })"

text \<open>The end of \<^verbatim>\<open>pos_move\<close>: the turn, the hash key, the counters, the invariant engine.\<close>

definition move_end :: "zobrist \<Rightarrow> Position \<Rightarrow> Position \<Rightarrow> int \<Rightarrow> move_t \<Rightarrow> Position option" where
  "move_end Z before pos them m = do {
     let pos = pos\<lparr> turn := them mod 256 \<rparr>;
     let pos = pos\<lparr> key := key pos XOR ZobristTurn Z \<rparr>;
     ze \<leftarrow> zobrist_en_passant Z (epSquare before);
     ze' \<leftarrow> zobrist_en_passant Z (epSquare pos);
     let pos = pos\<lparr> key := key pos XOR (ze XOR ze') \<rparr>;
     let pos = pos\<lparr> key := key pos
                  XOR zobrist_castling Z (castleRooks before XOR castleRooks pos) \<rparr>;
     let pos = pos\<lparr> fullMove := (fullMove pos + (if turn pos = WHITE then 1 else 0)) mod 65536 \<rparr>;
     let pos = pos\<lparr> lastMove := m \<rparr>;
     finish pos
   }"

definition pos_move :: "zobrist \<Rightarrow> Position \<Rightarrow> move_t \<Rightarrow> Position option" where
  "pos_move Z before m = do {
     let pos = before\<lparr> rule50 := (rule50 before + 1) mod 256, epSquare := NB_SQUARE \<rparr>;
     let us = turn pos;
     them \<leftarrow> opposite us;
     let from = move_from m;
     let to = move_to m;
     let prom = move_prom m;
     piece \<leftarrow> pos_piece_on pos from;
     capture \<leftarrow> pos_piece_on pos to;
     pos \<leftarrow> move_capture Z pos us piece capture to;
     pos \<leftarrow> move_piece Z before pos us them piece from to prom;
     move_end Z before pos them m
   }"

section \<open>Text\<close>

text \<open>
  A C string ends at its first NUL. The functions of the C library are modelled by their
  standard meaning in the "C" locale; \<^verbatim>\<open>atoi\<close> is undefined when the value does not fit
  an \<^verbatim>\<open>int\<close>.
\<close>

definition c_str :: "string \<Rightarrow> string" where
  "c_str s = takeWhile (\<lambda>c. c \<noteq> CHR 0x00) s"

definition isspace :: "char \<Rightarrow> bool" where
  "isspace c = (c \<in> set [CHR '' '', CHR 0x09, CHR 0x0A, CHR 0x0B, CHR 0x0C, CHR 0x0D])"

definition isdigit :: "char \<Rightarrow> bool" where
  "isdigit c = (48 \<le> (of_char c :: int) \<and> (of_char c :: int) \<le> 57)"

definition islower :: "char \<Rightarrow> bool" where
  "islower c = (97 \<le> (of_char c :: int) \<and> (of_char c :: int) \<le> 122)"

definition isupper :: "char \<Rightarrow> bool" where
  "isupper c = (65 \<le> (of_char c :: int) \<and> (of_char c :: int) \<le> 90)"

definition toupper :: "char \<Rightarrow> char" where
  "toupper c = (if islower c then char_of ((of_char c :: int) - 32) else c)"

primrec digits_value :: "int \<Rightarrow> string \<Rightarrow> int" where
  "digits_value acc [] = acc"
| "digits_value acc (c # cs) =
     (if isdigit c then digits_value (10 * acc + (of_char c - 48)) cs else acc)"

definition atoi :: "string \<Rightarrow> int option" where
  "atoi s =
     (let s1 = dropWhile isspace s;
          neg = (case s1 of [] \<Rightarrow> False | c # _ \<Rightarrow> c = CHR ''-'');
          s2 = (case s1 of [] \<Rightarrow> [] | c # cs \<Rightarrow> if c = CHR ''-'' \<or> c = CHR ''+'' then cs else s1);
          v = digits_value 0 s2;
          r = (if neg then - v else v)
      in if - 2147483648 \<le> r \<and> r \<le> 2147483647 then Some r else None)"

text \<open>The conversion \<^verbatim>\<open>%i\<close> of \<^verbatim>\<open>printf\<close>.\<close>

fun show_nat :: "nat \<Rightarrow> string" where
  "show_nat n =
     (if n < 10 then [char_of (48 + n)] else show_nat (n div 10) @ [char_of (48 + n mod 10)])"

definition show_int :: "int \<Rightarrow> string" where
  "show_int i = (if i < 0 then CHR ''-'' # show_nat (nat (- i)) else show_nat (nat i))"

text \<open>
  Modelled from the spec: \<^verbatim>\<open>str.c\<close> is not among the sources. \<^verbatim>\<open>str.h\<close> documents
  \<^verbatim>\<open>str_tok\<close>: it reads a token into \<open>token\<close> from \<open>s\<close>, the characters of \<open>delim\<close> being
  the white space, and returns the tail on success, otherwise \<^verbatim>\<open>NULL\<close> (no more tokens to
  read). The result is the pair of the tail and the token.
\<close>

definition str_tok :: "string option \<Rightarrow> string \<Rightarrow> string \<Rightarrow> string option \<times> string" where
  "str_tok s token delim =
     (case s of
        None \<Rightarrow> (None, token)
      | Some s \<Rightarrow>
          (let s1 = dropWhile (\<lambda>c. c \<in> set delim) s;
               tok = takeWhile (\<lambda>c. c \<notin> set delim) s1;
               rest = dropWhile (\<lambda>c. c \<notin> set delim) s1
           in (if tok = [] then None else Some rest, tok)))"

definition PieceLabel :: "int \<Rightarrow> string" where
  "PieceLabel color = (if color = WHITE then ''NBRQKP.'' else ''nbrqkp.'')"

text \<open>\<^verbatim>\<open>strchr(s, c) - s\<close>: the index of the first \<open>c\<close> in \<open>s\<close>; undefined when there is none.\<close>

primrec strchr_index :: "string \<Rightarrow> char \<Rightarrow> int option" where
  "strchr_index [] c = None"
| "strchr_index (x # xs) c =
     (if x = c then Some 0 else map_option (\<lambda>i. i + 1) (strchr_index xs c))"

definition square_to_string :: "int \<Rightarrow> string option" where
  "square_to_string square = do {
     BOUNDS square (NB_SQUARE + 1);
     if square = NB_SQUARE then Some ''-''
     else do {
       f \<leftarrow> file_of square;
       r \<leftarrow> rank_of square;
       Some [char_of (f + 97), char_of (r + 49)]
     }
   }"

text \<open>\<^verbatim>\<open>str.buf[1]\<close> of a token of one character is the terminating NUL.\<close>

definition string_to_square :: "string \<Rightarrow> int option" where
  "string_to_square str =
     (case str of
        [] \<Rightarrow> square_from (0 - 49) (0 - 97)
      | c0 # rest \<Rightarrow>
          if c0 \<noteq> CHR ''-''
          then square_from ((case rest of [] \<Rightarrow> 0 | c1 # _ \<Rightarrow> of_char c1) - 49) (of_char c0 - 97)
          else Some NB_SQUARE)"

section \<open>Decoding a FEN record\<close>

text \<open>
  \<^verbatim>\<open>pos_set\<close> has three outcomes: \<open>None\<close> is a fatal stop, \<open>Some None\<close> is
  \<^verbatim>\<open>return false\<close>, and \<open>Some (Some pos)\<close> is \<^verbatim>\<open>return true\<close> with the position set.
  \<open>cont\<close> runs the rest of the function after a part that may return false.
\<close>

definition cont :: "'a option option \<Rightarrow> ('a \<Rightarrow> 'b option option) \<Rightarrow> 'b option option" where
  "cont m f = (case m of None \<Rightarrow> None | Some None \<Rightarrow> Some None | Some (Some x) \<Rightarrow> f x)"

text \<open>The loop over the piece placement; it yields the position and the rank reached.\<close>

primrec parse_placement ::
  "zobrist \<Rightarrow> string \<Rightarrow> Position \<Rightarrow> int \<Rightarrow> int \<Rightarrow> (Position \<times> int) option option" where
  "parse_placement Z [] pos file rank = Some (Some (pos, rank))"
| "parse_placement Z (c # cs) pos file rank =
     (if c \<in> set ''12345678'' then
        (if file + (of_char c - 48) > NB_FILE then Some None
         else parse_placement Z cs pos (file + (of_char c - 48)) rank)
      else if c = CHR ''/'' then parse_placement Z cs pos FILE_A (rank - 1)
      else if c \<notin> set ''nbrqkpNBRQKP'' then Some None
      else do {
        let color = (if islower c then 1 else 0);
        piece \<leftarrow> strchr_index (PieceLabel color) c;
        square \<leftarrow> square_from rank file;
        pos \<leftarrow> set_square Z pos color piece square;
        parse_placement Z cs pos (file + 1) rank
      })"

text \<open>The loop over the castling field; it yields the new \<^verbatim>\<open>castleRooks\<close>.\<close>

primrec parse_castling :: "Position \<Rightarrow> string \<Rightarrow> bitboard_t \<Rightarrow> bitboard_t option option" where
  "parse_castling pos [] cr = Some (Some cr)"
| "parse_castling pos (c # cs) cr =
     (let rank = (if isupper c then RANK_1 else RANK_8); uc = toupper c in
      if uc = CHR ''K'' then do {
        r \<leftarrow> Rank rank;
        rooks \<leftarrow> at (byPiece pos) ROOK;
        s \<leftarrow> bb_msb (r AND rooks);
        cr \<leftarrow> bb_set cr s;
        parse_castling pos cs cr
      } else if uc = CHR ''Q'' then do {
        r \<leftarrow> Rank rank;
        rooks \<leftarrow> at (byPiece pos) ROOK;
        s \<leftarrow> bb_lsb (r AND rooks);
        cr \<leftarrow> bb_set cr s;
        parse_castling pos cs cr
      } else if uc \<in> set ''ABCDEFGH'' then do {
        s \<leftarrow> square_from rank (of_char uc - 65);
        cr \<leftarrow> bb_set cr s;
        parse_castling pos cs cr
      } else if c \<noteq> CHR ''-'' \<or> cr \<noteq> 0 \<or> cs \<noteq> [] then Some None
      else parse_castling pos cs cr)"

definition piece_counts_bad :: "Position \<Rightarrow> int \<Rightarrow> bool option" where
  "piece_counts_bad pos color = do {
     np \<leftarrow> pos_pieces_cpp pos color KNIGHT PAWN;
     bp \<leftarrow> pos_pieces_cpp pos color BISHOP PAWN;
     rp \<leftarrow> pos_pieces_cpp pos color ROOK PAWN;
     qp \<leftarrow> pos_pieces_cpp pos color QUEEN PAWN;
     p \<leftarrow> pos_pieces_cp pos color PAWN;
     k \<leftarrow> pos_pieces_cp pos color KING;
     c \<leftarrow> at (byColor pos) color;
     Some (bb_count np > 10 \<or> bb_count bp > 10 \<or> bb_count rp > 10 \<or> bb_count qp > 9
           \<or> bb_count p > 8 \<or> bb_count k \<noteq> 1 \<or> bb_count c > 16)
   }"

definition pawn_ranks_bad :: "Position \<Rightarrow> bool option" where
  "pawn_ranks_bad pos = do {
     pawns \<leftarrow> at (byPiece pos) PAWN;
     r1 \<leftarrow> Rank RANK_1;
     r8 \<leftarrow> Rank RANK_8;
     Some (pawns AND (r1 OR r8) \<noteq> 0)
   }"

text \<open>The body of the loop that verifies the castle rooks of one colour: \<open>Some False\<close> is
  \<^verbatim>\<open>return false\<close>.\<close>

definition castle_rooks_color_ok :: "Position \<Rightarrow> int \<Rightarrow> bool option" where
  "castle_rooks_color_ok pos color = do {
     c \<leftarrow> at (byColor pos) color;
     let b = castleRooks pos AND c;
     if bb_count b = 2 then do {
       l \<leftarrow> bb_lsb b;
       m \<leftarrow> bb_msb b;
       seg \<leftarrow> Segment l m;
       k \<leftarrow> pos_pieces_cp pos color KING;
       Some (seg AND k \<noteq> 0)
     } else if bb_count b = 1 then do {
       k \<leftarrow> pos_pieces_cp pos color KING;
       fa \<leftarrow> File FILE_A;
       fh \<leftarrow> File FILE_H;
       Some (k AND (fa OR fh) = 0)
     } else if b \<noteq> 0 then do {
       assert (bb_count b \<ge> 3);
       Some False
     } else Some True
   }"

definition castle_rooks_ok :: "Position \<Rightarrow> bool option" where
  "castle_rooks_ok pos =
     (if castleRooks pos \<noteq> 0 then do {
        r1 \<leftarrow> Rank RANK_1;
        wr \<leftarrow> pos_pieces_cp pos WHITE ROOK;
        r8 \<leftarrow> Rank RANK_8;
        br \<leftarrow> pos_pieces_cp pos BLACK ROOK;
        if castleRooks pos AND NOT ((r1 AND wr) OR (r8 AND br)) \<noteq> 0 then Some False
        else do {
          w \<leftarrow> castle_rooks_color_ok pos WHITE;
          if \<not> w then Some False else castle_rooks_color_ok pos BLACK
        }
      } else Some True)"

definition ep_square_ok :: "Position \<Rightarrow> bool option" where
  "ep_square_ok pos =
     (if epSquare pos \<noteq> NB_SQUARE then do {
        rank \<leftarrow> rank_of (epSquare pos);
        let color = (if rank = RANK_3 then WHITE else BLACK);
        if color = turn pos then Some False
        else do {
          occ \<leftarrow> pos_pieces pos;
          t \<leftarrow> bb_test occ (epSquare pos);
          if t then Some False
          else if rank \<noteq> RANK_3 \<and> rank \<noteq> RANK_6 then Some False
          else do {
            push \<leftarrow> push_inc color;
            pawns \<leftarrow> pos_pieces_cp pos color PAWN;
            t1 \<leftarrow> bb_test pawns (epSquare pos + push);
            if \<not> t1 then Some False
            else do {
              occ \<leftarrow> pos_pieces pos;
              t2 \<leftarrow> bb_test occ (epSquare pos - push);
              Some (\<not> t2)
            }
          }
        }
      } else Some True)"

text \<open>The parts of \<^verbatim>\<open>pos_set\<close>, in the order of the source.\<close>

definition set_placement ::
  "zobrist \<Rightarrow> string \<Rightarrow> (Position \<times> string option \<times> string) option option" where
  "set_placement Z buf =
     (let (tail, token) = str_tok (Some buf) [] '' '' in
      cont (parse_placement Z token Position_zero FILE_A RANK_8) (\<lambda>(pos, rank).
        if rank \<noteq> RANK_1 then Some None else Some (Some (pos, tail, token))))"

definition set_turn ::
  "zobrist \<Rightarrow> Position \<Rightarrow> string option \<Rightarrow> string
     \<Rightarrow> (Position \<times> string option \<times> string) option option" where
  "set_turn Z pos tail token =
     (let (tail, token) = str_tok tail token '' '' in
      case token of
        [c] \<Rightarrow>
          if c = CHR ''w'' then Some (Some (pos\<lparr> turn := WHITE \<rparr>, tail, token))
          else if c \<noteq> CHR ''b'' then Some None
          else Some (Some (pos\<lparr> turn := BLACK, key := key pos XOR ZobristTurn Z \<rparr>, tail, token))
      | _ \<Rightarrow> Some None)"

definition set_castling ::
  "zobrist \<Rightarrow> bool \<Rightarrow> Position \<Rightarrow> string option \<Rightarrow> string
     \<Rightarrow> (Position \<times> string option \<times> string) option option" where
  "set_castling Z chess960' pos tail token =
     (let (tail, token) = str_tok tail token '' '' in
      cont (if tail \<noteq> None
            then (if length token > 4 then Some None
                  else parse_castling pos token (castleRooks pos))
            else Some (Some (castleRooks pos)))
        (\<lambda>cr. Some (Some (pos\<lparr> castleRooks := cr,
                               key := key pos XOR zobrist_castling Z cr,
                               chess960 := chess960' \<rparr>, tail, token))))"

definition set_en_passant ::
  "zobrist \<Rightarrow> Position \<Rightarrow> string option \<Rightarrow> string
     \<Rightarrow> (Position \<times> string option \<times> string) option option" where
  "set_en_passant Z pos tail token =
     (let (tail, token) = str_tok tail token '' '';
          token = (if tail = None then ''-'' else token) in
      if length token > 2 then Some None
      else do {
        s \<leftarrow> string_to_square token;
        let pos = pos\<lparr> epSquare := s mod 256 \<rparr>;
        ze \<leftarrow> zobrist_en_passant Z (epSquare pos);
        Some (Some (pos\<lparr> key := key pos XOR ze \<rparr>, tail, token))
      })"

definition set_counters ::
  "Position \<Rightarrow> string option \<Rightarrow> string \<Rightarrow> Position option option" where
  "set_counters pos tail token =
     (let (tail, token) = str_tok tail token '' '' in do {
        r \<leftarrow> (if tail \<noteq> None then map_option (\<lambda>v. v mod 256) (atoi token) else Some 0);
        let pos = pos\<lparr> rule50 := r \<rparr>;
        if rule50 pos \<ge> 100 then Some None
        else (let (tail, token) = str_tok tail token '' '' in do {
          f \<leftarrow> (if tail \<noteq> None then map_option (\<lambda>v. v mod 65536) (atoi token) else Some 1);
          Some (Some (pos\<lparr> fullMove := f \<rparr>))
        })
      })"

definition set_verify :: "Position \<Rightarrow> Position option option" where
  "set_verify pos = do {
     w \<leftarrow> piece_counts_bad pos WHITE;
     if w then Some None
     else do {
       b \<leftarrow> piece_counts_bad pos BLACK;
       if b then Some None
       else do {
         p \<leftarrow> pawn_ranks_bad pos;
         if p then Some None
         else do {
           c \<leftarrow> castle_rooks_ok pos;
           if \<not> c then Some None
           else do {
             e \<leftarrow> ep_square_ok pos;
             if \<not> e then Some None
             else do { pos \<leftarrow> finish pos; Some (Some pos) }
           }
         }
       }
     }
   }"

definition pos_set :: "zobrist \<Rightarrow> string \<Rightarrow> bool \<Rightarrow> Position option option" where
  "pos_set Z fen chess960' =
     cont (set_placement Z (c_str fen)) (\<lambda>(pos, tail, token).
     cont (set_turn Z pos tail token) (\<lambda>(pos, tail, token).
     cont (set_castling Z chess960' pos tail token) (\<lambda>(pos, tail, token).
     cont (set_en_passant Z pos tail token) (\<lambda>(pos, tail, token).
     cont (set_counters pos tail token) set_verify))))"

section \<open>Encoding a FEN record\<close>

text \<open>The loop over the files of one rank; it yields the count of empty squares pending.\<close>

primrec get_files :: "Position \<Rightarrow> int \<Rightarrow> int list \<Rightarrow> int \<Rightarrow> string \<Rightarrow> (int \<times> string) option" where
  "get_files pos rank [] cnt fen = Some (cnt, fen)"
| "get_files pos rank (file # files) cnt fen = do {
     square \<leftarrow> square_from rank file;
     occ \<leftarrow> pos_pieces pos;
     t \<leftarrow> bb_test occ square;
     if t then do {
       let fen = (if cnt \<noteq> 0 then fen @ [char_of (cnt + 48)] else fen);
       c \<leftarrow> pos_color_on pos square;
       p \<leftarrow> pos_piece_on pos square;
       l \<leftarrow> at (PieceLabel c) p;
       get_files pos rank files 0 (fen @ [l])
     } else get_files pos rank files (cnt + 1) fen
   }"

primrec get_ranks :: "Position \<Rightarrow> int list \<Rightarrow> string \<Rightarrow> string option" where
  "get_ranks pos [] fen = Some fen"
| "get_ranks pos (rank # ranks) fen = do {
     (cnt, fen) \<leftarrow> get_files pos rank [0, 1, 2, 3, 4, 5, 6, 7] 0 fen;
     let fen = (if cnt \<noteq> 0 then fen @ [char_of (cnt + 48)] else fen);
     get_ranks pos ranks (fen @ [if rank = RANK_1 then CHR '' '' else CHR ''/''])
   }"

definition get_castling :: "Position \<Rightarrow> int \<Rightarrow> string \<Rightarrow> string option" where
  "get_castling pos color fen = do {
     c \<leftarrow> at (byColor pos) color;
     let b = castleRooks pos AND c;
     if b \<noteq> 0 then do {
       king \<leftarrow> pos_king_square pos color;
       r \<leftarrow> Ray king (king + RIGHT);
       kl \<leftarrow> at (PieceLabel color) KING;
       let fen = (if b AND r \<noteq> 0 then fen @ [kl] else fen);
       l \<leftarrow> Ray king (king + LEFT);
       ql \<leftarrow> at (PieceLabel color) QUEEN;
       Some (if b AND l \<noteq> 0 then fen @ [ql] else fen)
     } else Some fen
   }"

definition pos_get :: "Position \<Rightarrow> string option" where
  "pos_get pos = do {
     fen \<leftarrow> get_ranks pos [7, 6, 5, 4, 3, 2, 1, 0] [];
     let fen = fen @ (if turn pos = WHITE then ''w '' else ''b '');
     fen \<leftarrow> (if castleRooks pos = 0 then Some (fen @ ''-'')
             else do { fen \<leftarrow> get_castling pos WHITE fen; get_castling pos BLACK fen });
     epStr \<leftarrow> square_to_string (epSquare pos);
     Some (fen @ '' '' @ epStr @ '' '' @ show_int (rule50 pos) @ '' '' @ show_int (fullMove pos))
   }"

section \<open>Standard algebraic notation\<close>

text \<open>The body of the loop over the pinned contesters.\<close>

definition san_pinned_step :: "Position \<Rightarrow> int \<Rightarrow> int \<Rightarrow> int \<Rightarrow> bitboard_t \<Rightarrow> bitboard_t option" where
  "san_pinned_step pos us to pinnedContester contesters = do {
     king \<leftarrow> pos_king_square pos us;
     r \<leftarrow> Ray king pinnedContester;
     t \<leftarrow> bb_test r to;
     if \<not> t then bb_clear contesters pinnedContester else Some contesters
   }"

definition san_contesters :: "Position \<Rightarrow> int \<Rightarrow> int \<Rightarrow> int \<Rightarrow> int \<Rightarrow> bitboard_t option" where
  "san_contesters pos us piece from to = do {
     let pins' = pins pos;
     contesters \<leftarrow> pos_pieces_cp pos us piece;
     contesters \<leftarrow> bb_clear contesters from;
     if piece = KNIGHT then do {
       n \<leftarrow> KnightAttacks to;
       Some (contesters AND n AND NOT pins')
     } else do {
       assert (BISHOP \<le> piece \<and> piece \<le> QUEEN);
       occ \<leftarrow> pos_pieces pos;
       contesters \<leftarrow> (if piece = BISHOP then do {
                         b \<leftarrow> bb_bishop_attacks to occ; Some (contesters AND b) }
                       else if piece = ROOK then do {
                         r \<leftarrow> bb_rook_attacks to occ; Some (contesters AND r) }
                       else if piece = QUEEN then do {
                         b \<leftarrow> bb_bishop_attacks to occ;
                         r \<leftarrow> bb_rook_attacks to occ;
                         Some (contesters AND (b OR r)) }
                       else Some contesters);
       foldM (san_pinned_step pos us to) (bb_squares (contesters AND pins')) contesters
     }
   }"

definition san_disambiguate :: "int \<Rightarrow> bitboard_t \<Rightarrow> string \<Rightarrow> string option" where
  "san_disambiguate from contesters out =
     (if contesters \<noteq> 0 then do {
        ra \<leftarrow> bb_rook_attacks from 0;
        if ra AND contesters \<noteq> 0 then do {
          rf \<leftarrow> rank_of from;
          r \<leftarrow> Rank rf;
          ff \<leftarrow> file_of from;
          let out = (if r AND contesters \<noteq> 0 then out @ [char_of (ff + 97)] else out);
          ff \<leftarrow> file_of from;
          f \<leftarrow> File ff;
          rf \<leftarrow> rank_of from;
          Some (if f AND contesters \<noteq> 0 then out @ [char_of (rf + 49)] else out)
        } else do {
          ff \<leftarrow> file_of from;
          Some (out @ [char_of (ff + 97)])
        }
      } else Some out)"

definition pos_move_to_san :: "Position \<Rightarrow> move_t \<Rightarrow> string \<Rightarrow> string option" where
  "pos_move_to_san pos m out = do {
     let us = turn pos;
     let from = move_from m;
     let to = move_to m;
     let prom = move_prom m;
     piece \<leftarrow> pos_piece_on pos from;
     if piece = PAWN then do {
       ff \<leftarrow> file_of from;
       let out = out @ [char_of (ff + 97)];
       cap \<leftarrow> pos_move_is_capture pos m;
       out \<leftarrow> (if cap \<or> to = epSquare pos
               then do { ft \<leftarrow> file_of to; Some (out @ [CHR ''x'', char_of (ft + 97)]) }
               else Some out);
       rt \<leftarrow> rank_of to;
       let out = out @ [char_of (rt + 49)];
       if prom < NB_PIECE
       then do { l \<leftarrow> at (PieceLabel WHITE) prom; Some (out @ [CHR ''='', l]) }
       else Some out
     } else if piece = KING then do {
       castling \<leftarrow> pos_move_is_castling pos m;
       if castling then Some (out @ (if to > from then ''O-O'' else ''O-O-O''))
       else do {
         let out = out @ ''K'';
         cap \<leftarrow> pos_move_is_capture pos m;
         let out = (if cap then out @ ''x'' else out);
         toStr \<leftarrow> square_to_string to;
         Some (out @ toStr)
       }
     } else do {
       l \<leftarrow> at (PieceLabel WHITE) piece;
       let out = out @ [l];
       contesters \<leftarrow> san_contesters pos us piece from to;
       out \<leftarrow> san_disambiguate from contesters out;
       cap \<leftarrow> pos_move_is_capture pos m;
       let out = (if cap then out @ ''x'' else out);
       toStr \<leftarrow> square_to_string to;
       Some (out @ toStr)
     }
   }"

section \<open>Evaluation helpers\<close>

text \<open>
  The bits of a bitboard read off the binary numeral, for evaluating the definitions
  above on concrete positions.
\<close>

primrec num_bits :: "num \<Rightarrow> int \<Rightarrow> int list" where
  "num_bits num.One i = [i]"
| "num_bits (num.Bit0 n) i = num_bits n (i + 1)"
| "num_bits (num.Bit1 n) i = i # num_bits n (i + 1)"

definition int_bits :: "int \<Rightarrow> int list" where
  "int_bits k = filter (\<lambda>s. bit k (nat s)) [0..63]"

primrec num_bit :: "num \<Rightarrow> int \<Rightarrow> bool" where
  "num_bit num.One s = (s \<le> 0)"
| "num_bit (num.Bit0 n) s = (0 < s \<and> num_bit n (s - 1))"
| "num_bit (num.Bit1 n) s = (s \<le> 0 \<or> num_bit n (s - 1))"

definition int_bit :: "int \<Rightarrow> int \<Rightarrow> bool" where
  "int_bit k s = bit k (nat s)"

primrec horner :: "bool list \<Rightarrow> int" where
  "horner [] = 0"
| "horner (b # bs) = (if b then 1 + 2 * horner bs else 2 * horner bs)"

section \<open>Well-formed boards\<close>

text \<open>How many of the bitboards \<open>bs\<close> hold the square \<open>s\<close>.\<close>

definition cnt :: "bitboard_t list \<Rightarrow> int \<Rightarrow> nat" where
  "cnt bs s = length (filter (\<lambda>b. bit b (nat s)) bs)"

text \<open>
  A board is well formed when every square is either empty (in no colour set and in no
  piece set) or holds one piece (in one colour set and in one piece set).
\<close>

definition board_ok :: "Position \<Rightarrow> bool" where
  "board_ok pos =
     (length (byColor pos) = 2 \<and> length (byPiece pos) = 6
      \<and> list_all (\<lambda>s. cnt (byColor pos) s = cnt (byPiece pos) s \<and> cnt (byColor pos) s \<le> 1)
           [0..63])"

text \<open>The squares that hold a piece of either colour.\<close>

definition occupied_squares :: "Position \<Rightarrow> int set" where
  "occupied_squares pos =
     {s. 0 \<le> s \<and> s < 64 \<and> (bit (byColor pos ! 0) (nat s) \<or> bit (byColor pos ! 1) (nat s))}"

section \<open>Concrete positions and constants\<close>

text \<open>A sample table of hash constants, and positions used to instantiate the theorems.\<close>

definition Z0 :: zobrist where
  "Z0 = \<lparr> ZobristKey = (\<lambda>c p s. word_of_int ((c * 384 + p * 64 + s + 1) * 0x9E3779B97F4A7C15)),
          ZobristCastling = (\<lambda>s. word_of_int ((s + 1000) * 0x9E3779B97F4A7C15)),
          ZobristEnPassant = (\<lambda>s. word_of_int ((s + 2000) * 0x9E3779B97F4A7C15)),
          ZobristTurn = 0x123456789ABCDEF \<rparr>"

text \<open>White king on e1, black king on e8, nothing else; White to move.\<close>

definition K_vs_K :: Position where
  "K_vs_K =
     \<lparr> byColor = [0x10, 0x1000000000000000],
       byPiece = [0, 0, 0, 0, 0x1000000000000010, 0], castleRooks = 0,
       key = 17015212357062569400, attacked = 2898066360212914176,
       checkers = 0, pins = 0,
       lastMove = \<lparr> move_from = 0, move_to = 0, move_prom = 0 \<rparr>, fullMove = 1,
       turn = 0, epSquare = 64, rule50 = 0, chess960 = False \<rparr>"

text \<open>White: king g1, knights e1 and e5. Black: king e8. White to move.\<close>

definition NN_same_file :: Position where
  "NN_same_file =
     \<lparr> byColor = [68719476816, 1152921504606846976],
       byPiece = [68719476752, 0, 0, 0, 1152921504606847040, 0], castleRooks = 0,
       key = 16231762103106491938, attacked = 2898066360212914176,
       checkers = 0, pins = 0,
       lastMove = \<lparr> move_from = 0, move_to = 0, move_prom = 0 \<rparr>, fullMove = 1,
       turn = 0, epSquare = 64, rule50 = 0, chess960 = False \<rparr>"

text \<open>White: king g1, knights b1 and f1. Black: king e8. White to move.\<close>

definition NN_other_file :: Position where
  "NN_other_file =
     \<lparr> byColor = [98, 1152921504606846976],
       byPiece = [34, 0, 0, 0, 1152921504606847040, 0], castleRooks = 0,
       key = 11633101131023041814, attacked = 2898066360212914176,
       checkers = 0, pins = 0,
       lastMove = \<lparr> move_from = 0, move_to = 0, move_prom = 0 \<rparr>, fullMove = 1,
       turn = 0, epSquare = 64, rule50 = 0, chess960 = False \<rparr>"

definition knight_rival :: "Position \<Rightarrow> int \<Rightarrow> int \<Rightarrow> int \<Rightarrow> bool" where
  "knight_rival pos from to s =
     (s \<noteq> from \<and> bit (byColor pos ! nat (turn pos)) (nat s)
      \<and> bit (byPiece pos ! nat KNIGHT) (nat s)
      \<and> knight_jump to s \<and> \<not> bit (pins pos) (nat s))"

definition P_e2e4 :: Position where
  "P_e2e4 =
     \<lparr> byColor = [4112, 1152921504741064704],
       byPiece = [0, 0, 0, 0, 1152921504606846992, 134221824],
       castleRooks = 0, key = 4948177603859351269,
       attacked = 2898066360214224896, checkers = 0, pins = 0,
       lastMove = \<lparr> move_from = 0, move_to = 0, move_prom = 0 \<rparr>, fullMove = 1,
       turn = 0, epSquare = 64, rule50 = 0, chess960 = False \<rparr>"

text \<open>White: king e1, pawn e2. Black: king e8, pawn d4. White to move; then after e2-e4.\<close>

definition P_e2e4_after :: Position where
  "P_e2e4_after =
     \<lparr> byColor = [268435472, 1152921504741064704],
       byPiece = [0, 0, 0, 0, 1152921504606846992, 402653184],
       castleRooks = 0, key = 14481478249271818270, attacked = 171798706216,
       checkers = 0, pins = 0,
       lastMove = \<lparr> move_from = 12, move_to = 28, move_prom = 6 \<rparr>, fullMove = 1,
       turn = 1, epSquare = 20, rule50 = 0, chess960 = False \<rparr>"

text \<open>A pawn of \<open>color\<close> stands on a square from which it captures on \<open>sq\<close>.\<close>

definition pawn_can_capture :: "Position \<Rightarrow> int \<Rightarrow> int \<Rightarrow> bool" where
  "pawn_can_capture pos color sq =
     list_ex (\<lambda>t. bit (byColor pos ! nat color) (nat t) \<and> bit (byPiece pos ! nat PAWN) (nat t)
                  \<and> pawn_capture color t sq) [0..63]"

text \<open>White: king e1, knight e2 (pinned). Black: king h8, rook e8. White to move.\<close>

definition N_pinned :: Position where
  "N_pinned =
     \<lparr> byColor = [4112, 10376293541461622784],
       byPiece = [4096, 0, 1152921504606846976, 0, 9223372036854775824, 0],
       castleRooks = 0, key = 16410723176957487081,
       attacked = 17280329431395602432, checkers = 0, pins = 4096,
       lastMove = \<lparr> move_from = 0, move_to = 0, move_prom = 0 \<rparr>, fullMove = 1,
       turn = 0, epSquare = 64, rule50 = 0, chess960 = False \<rparr>"

text \<open>
  The square \<open>s\<close> is pinned against the king on \<open>king\<close> by the enemy slider on \<open>x\<close>: a rook
  or queen on the king's rank or file, or a bishop or queen on one of its diagonals; \<open>s\<close>
  lies strictly between them, and no other square strictly between them is occupied.
\<close>

definition pinned_by :: "Position \<Rightarrow> int \<Rightarrow> int \<Rightarrow> int \<Rightarrow> bool" where
  "pinned_by pos king x s =
     (bit (byColor pos ! nat (1 - turn pos)) (nat x)
      \<and> ((rook_line king x
           \<and> (bit (byPiece pos ! nat ROOK) (nat x) \<or> bit (byPiece pos ! nat QUEEN) (nat x)))
          \<or> (bishop_line king x
              \<and> (bit (byPiece pos ! nat BISHOP) (nat x) \<or> bit (byPiece pos ! nat QUEEN) (nat x))))
      \<and> s \<in> set (between_sqs king x)
      \<and> (\<forall>t \<in> set (between_sqs king x). t \<in> occupied_squares pos \<longrightarrow> t = s))"

text \<open>White: king e2. Black: king h8, rook e4 (giving check). White to move.\<close>

definition R_through :: Position where
  "R_through =
     \<lparr> byColor = [4096, 9223372037123211264],
       byPiece = [0, 0, 268435456, 0, 9223372036854779904, 0], castleRooks = 0,
       key = 11294187170785463008, attacked = 5823171983106379792,
       checkers = 268435456, pins = 0,
       lastMove = \<lparr> move_from = 0, move_to = 0, move_prom = 0 \<rparr>, fullMove = 1,
       turn = 0, epSquare = 64, rule50 = 0, chess960 = False \<rparr>"

text \<open>
  The value that \<^verbatim>\<open>finish\<close> stores in \<^verbatim>\<open>checkers\<close> when the king's square is attacked,
  before its two assertions: the enemy pawns, knights, rooks, bishops and queens that attack
  the king's square.
\<close>

definition finish_checkers_value :: "Position \<Rightarrow> int \<Rightarrow> int \<Rightarrow> int \<Rightarrow> bitboard_t option" where
  "finish_checkers_value pos us them king = do {
     pawns \<leftarrow> pos_pieces_cp pos them PAWN;
     pa \<leftarrow> PawnAttacks us king;
     knights \<leftarrow> pos_pieces_cp pos them KNIGHT;
     na \<leftarrow> KnightAttacks king;
     rq \<leftarrow> pos_pieces_cpp pos them ROOK QUEEN;
     occ \<leftarrow> pos_pieces pos;
     ra \<leftarrow> bb_rook_attacks king occ;
     bq \<leftarrow> pos_pieces_cpp pos them BISHOP QUEEN;
     ba \<leftarrow> bb_bishop_attacks king occ;
     Some ((pawns AND pa) OR (knights AND na) OR (rq AND ra) OR (bq AND ba))
   }"

text \<open>The parts of \<^verbatim>\<open>pos_set\<close> that read the fields of the record, before the verification.\<close>

definition set_fields :: "zobrist \<Rightarrow> string \<Rightarrow> bool \<Rightarrow> Position option option" where
  "set_fields Z fen chess960' =
     cont (set_placement Z (c_str fen)) (\<lambda>(pos, tail, token).
     cont (set_turn Z pos tail token) (\<lambda>(pos, tail, token).
     cont (set_castling Z chess960' pos tail token) (\<lambda>(pos, tail, token).
     cont (set_en_passant Z pos tail token) (\<lambda>(pos, tail, token).
     set_counters pos tail token))))"

text \<open>
  The record \<^verbatim>\<open>8/8/8/8/8/8/4k3/4K3 w - - 0 1\<close> as the fields are read, before the invariant
  engine: white king e1, black king e2, White to move.
\<close>

definition KK_adjacent :: Position where
  "KK_adjacent =
     \<lparr> byColor = [16, 4096], byPiece = [0, 0, 0, 0, 4112, 0], castleRooks = 0,
       key = 4776915838010026408, attacked = 0, checkers = 0, pins = 0,
       lastMove = \<lparr> move_from = 0, move_to = 0, move_prom = 0 \<rparr>, fullMove = 1,
       turn = 0, epSquare = 64, rule50 = 0, chess960 = False \<rparr>"

text \<open>
  The record \<^verbatim>\<open>4r3/8/8/8/7b/3n4/8/4K2k w - - 0 1\<close> as the fields are read: white king e1;
  black rook e8, bishop h4, knight d3 (all three attack e1) and king h1. White to move.
\<close>

definition K_three_checks :: Position where
  "K_three_checks =
     \<lparr> byColor = [16, 1152921506754855040],
       byPiece = [524288, 2147483648, 1152921504606846976, 0, 144, 0],
       castleRooks = 0, key = 9801300933960151124, attacked = 0,
       checkers = 0, pins = 0,
       lastMove = \<lparr> move_from = 0, move_to = 0, move_prom = 0 \<rparr>, fullMove = 1,
       turn = 0, epSquare = 64, rule50 = 0, chess960 = False \<rparr>"

section \<open>The board as a map, and the hash key from scratch\<close>

text \<open>
  The piece on a square, as the pair of its colour and its type, read off the colour sets
  and the piece sets: the first colour set and the first piece set that hold the square.
\<close>

definition piece_at :: "Position \<Rightarrow> int \<Rightarrow> (int \<times> int) option" where
  "piece_at pos s =
     (if 0 \<le> s \<and> s < 64 then
        (case find (\<lambda>c. bit (byColor pos ! nat c) (nat s)) [0, 1] of
           None \<Rightarrow> None
         | Some c \<Rightarrow>
             (case find (\<lambda>p. bit (byPiece pos ! nat p) (nat s)) [0, 1, 2, 3, 4, 5] of
                None \<Rightarrow> None
              | Some p \<Rightarrow> Some (c, p)))
      else None)"

text \<open>Every (colour, piece, square), and whether the position has that piece there.\<close>

definition all_placements :: "(int \<times> int \<times> int) list" where
  "all_placements = List.product [0, 1] (List.product [0, 1, 2, 3, 4, 5] [0..63])"

definition placed :: "Position \<Rightarrow> int \<times> int \<times> int \<Rightarrow> bool" where
  "placed pos x =
     (case x of (c, p, s) \<Rightarrow> bit (byColor pos ! nat c) (nat s) \<and> bit (byPiece pos ! nat p) (nat s))"

text \<open>
  The key computed from scratch: the placement constants of every piece on the board, the
  turn constant when Black is to move, the castling constants of the castle rooks, and the
  en-passant constant of the en-passant square (or of "none").
\<close>

definition placement_key :: "zobrist \<Rightarrow> Position \<Rightarrow> 64 word" where
  "placement_key Z pos =
     fold (\<lambda>x k. if placed pos x then k XOR (case x of (c, p, s) \<Rightarrow> ZobristKey Z c p s) else k)
       all_placements 0"






section \<open>Evaluation\<close>

lemma num_bits_filter:
  "0 \<le> i \<Longrightarrow> filter (\<lambda>s. bit (numeral n :: int) (nat (s - i))) [i..63]
     = takeWhile (\<lambda>s. s \<le> 63) (num_bits n i)"
proof (induction n arbitrary: i)
  case One
  have "filter (\<lambda>s. bit (1 :: int) (nat (s - i))) [i..63] = filter (\<lambda>s. s = i) [i..63]"
    by (rule filter_cong) (auto simp: bit_1_iff)
  also have "\<dots> = (if i \<le> 63 then [i] else [])"
    by (auto simp: upto_rec1 [of i 63] filter_empty_conv)
  finally show ?case by simp
next
  case (Bit0 n)
  have *: "\<And>s. s \<in> set [i + 1..63] \<Longrightarrow>
      bit (numeral (num.Bit0 n) :: int) (nat (s - i)) = bit (numeral n :: int) (nat (s - (i + 1)))"
  proof -
    fix s assume "s \<in> set [i + 1..63]"
    then have "nat (s - i) = Suc (nat (s - (i + 1)))" by auto
    then show "bit (numeral (num.Bit0 n) :: int) (nat (s - i)) = bit (numeral n :: int) (nat (s - (i + 1)))"
      by (simp add: bit_Suc)
  qed
  show ?case
  proof (cases "i \<le> 63")
    case True
    then have "[i..63] = i # [i + 1..63]" by (simp add: upto_rec1)
    then have "filter (\<lambda>s. bit (numeral (num.Bit0 n) :: int) (nat (s - i))) [i..63]
        = filter (\<lambda>s. bit (numeral (num.Bit0 n) :: int) (nat (s - i))) [i + 1..63]"
      by (simp add: bit_0)
    also have "\<dots> = filter (\<lambda>s. bit (numeral n :: int) (nat (s - (i + 1)))) [i + 1..63]"
      by (rule filter_cong) (auto simp: *)
    also have "\<dots> = takeWhile (\<lambda>s. s \<le> 63) (num_bits n (i + 1))"
      using Bit0.IH [of "i + 1"] Bit0.prems by simp
    finally show ?thesis by simp
  next
    case False
    then have "[i..63] = []" by simp
    moreover have "takeWhile (\<lambda>s. s \<le> 63) (num_bits n (i + 1)) = []"
      using Bit0.IH [of "i + 1"] Bit0.prems False by simp
    ultimately show ?thesis by simp
  qed
next
  case (Bit1 n)
  have *: "\<And>s. s \<in> set [i + 1..63] \<Longrightarrow>
      bit (numeral (num.Bit1 n) :: int) (nat (s - i)) = bit (numeral n :: int) (nat (s - (i + 1)))"
  proof -
    fix s assume "s \<in> set [i + 1..63]"
    then have "nat (s - i) = Suc (nat (s - (i + 1)))" by auto
    then show "bit (numeral (num.Bit1 n) :: int) (nat (s - i)) = bit (numeral n :: int) (nat (s - (i + 1)))"
      by (simp add: bit_Suc)
  qed
  show ?case
  proof (cases "i \<le> 63")
    case True
    then have "[i..63] = i # [i + 1..63]" by (simp add: upto_rec1)
    then have "filter (\<lambda>s. bit (numeral (num.Bit1 n) :: int) (nat (s - i))) [i..63]
        = i # filter (\<lambda>s. bit (numeral (num.Bit1 n) :: int) (nat (s - i))) [i + 1..63]"
      by (simp add: bit_0)
    also have "filter (\<lambda>s. bit (numeral (num.Bit1 n) :: int) (nat (s - i))) [i + 1..63]
         = filter (\<lambda>s. bit (numeral n :: int) (nat (s - (i + 1)))) [i + 1..63]"
      by (rule filter_cong) (auto simp: *)
    also have "\<dots> = takeWhile (\<lambda>s. s \<le> 63) (num_bits n (i + 1))"
      using Bit1.IH [of "i + 1"] Bit1.prems by simp
    finally show ?thesis using True by simp
  next
    case False
    then show ?thesis by simp
  qed
qed

lemma int_bits_code [code]:
  "int_bits 0 = []"
  "int_bits (Int.Pos n) = takeWhile (\<lambda>s. s \<le> 63) (num_bits n 0)"
  using num_bits_filter [of 0 n] by (simp_all add: int_bits_def Int.Pos_def)

lemma bit_word_uint: "bit (w :: 64 word) n = bit (uint w) n"
  by (auto simp: bit_uint_iff dest: bit_imp_le_length)

lemma bb_squares_code [code]: "bb_squares b = int_bits (uint b)"
  by (simp add: bb_squares_def int_bits_def bit_word_uint)

lemma num_bit_eq: "num_bit n s = bit (numeral n :: int) (nat s)"
proof (induction n arbitrary: s)
  case One
  show ?case by (auto simp: bit_1_iff)
next
  case (Bit0 n)
  show ?case
  proof (cases "0 < s")
    case True
    then have "nat s = Suc (nat (s - 1))" by simp
    then show ?thesis using True Bit0 [of "s - 1"] by (simp add: bit_Suc)
  next
    case False
    then show ?thesis by (simp add: bit_0)
  qed
next
  case (Bit1 n)
  show ?case
  proof (cases "0 < s")
    case True
    then have "nat s = Suc (nat (s - 1))" by simp
    then show ?thesis using True Bit1 [of "s - 1"] by (simp add: bit_Suc)
  next
    case False
    then show ?thesis by (simp add: bit_0)
  qed
qed

lemma int_bit_code [code]:
  "int_bit 0 s = False"
  "int_bit (Int.Pos n) s = num_bit n s"
  by (simp_all add: int_bit_def num_bit_eq Int.Pos_def)

lemma bit_horner: "bit (horner bs) n = (n < length bs \<and> bs ! n)"
proof (induction bs arbitrary: n)
  case Nil
  show ?case by simp
next
  case (Cons b bs)
  show ?case
  proof (cases n)
    case 0
    then show ?thesis by (simp add: bit_0)
  next
    case (Suc m)
    then show ?thesis using Cons.IH [of m] by (simp add: bit_Suc)
  qed
qed

lemma bit_bb_of_fold:
  "\<forall>s \<in> set xs. 0 \<le> s \<Longrightarrow>
   bit (fold (\<lambda>s w. if P s then set_bit (nat s) w else w) xs (w :: 64 word)) n
     = (bit w n \<or> (n < 64 \<and> int n \<in> set xs \<and> P (int n)))"
proof (induction xs arbitrary: w)
  case Nil
  show ?case by simp
next
  case (Cons x xs)
  then have "0 \<le> x" by simp
  then have "(n = nat x) = (int n = x)" by auto
  then show ?case using Cons by (auto simp: bit_set_bit_iff)
qed

lemma bit_bb_of: "bit (bb_of P) n = (n < 64 \<and> P (int n))"
  unfolding bb_of_def by (subst bit_bb_of_fold) auto

lemma bb_of_code [code]: "bb_of P = word_of_int (horner (map P [0..63]))"
proof (rule bit_word_eqI)
  fix n assume "n < LENGTH(64)"
  then have n: "n < 64" by simp
  then have "[0..63] ! n = int n" by (simp add: nth_upto)
  with n show "bit (bb_of P) n = bit (word_of_int (horner (map P [0..63])) :: 64 word) n"
    by (simp add: bit_bb_of bit_word_of_int_iff bit_horner)
qed

lemma bb_test_code [code]:
  "bb_test b square = do { BOUNDS square NB_SQUARE; Some (int_bit (uint b) square) }"
  by (simp add: bb_test_def int_bit_def bit_word_uint)

lemma slide_free_code [code]:
  "slide_free occ a b = list_all (\<lambda>s. \<not> int_bit (uint occ) s) (between_sqs a b)"
  by (simp add: slide_free_def int_bit_def bit_word_uint)

lemma bb_set_code [code]:
  "bb_set b square = do {
     BOUNDS square NB_SQUARE;
     Some (word_of_int (uint (b OR bb_of (\<lambda>s. s = square))))
   }"
proof (cases "0 \<le> square \<and> square < 64")
  case True
  then have "set_bit (nat square) b = b OR bb_of (\<lambda>s. s = square)"
    by (intro bit_word_eqI) (auto simp: bit_set_bit_iff bit_or_iff bit_bb_of)
  then show ?thesis by (simp add: bb_set_def)
next
  case False
  then show ?thesis by (auto simp: bb_set_def BOUNDS_def assert_def)
qed

lemma bb_clear_code [code]:
  "bb_clear b square = do {
     BOUNDS square NB_SQUARE;
     Some (word_of_int (uint (b AND bb_of (\<lambda>s. s \<noteq> square))))
   }"
proof (cases "0 \<le> square \<and> square < 64")
  case True
  then have "unset_bit (nat square) b = b AND bb_of (\<lambda>s. s \<noteq> square)"
    by (intro bit_word_eqI)
      (auto simp: bit_unset_bit_iff bit_and_iff bit_bb_of dest: bit_imp_le_length)
  then show ?thesis by (simp add: bb_clear_def)
next
  case False
  then show ?thesis by (auto simp: bb_clear_def BOUNDS_def assert_def)
qed

section \<open>Basic facts\<close>


lemma assert_Some [simp]: "(assert c = Some u) = c"
  by (simp add: assert_def)

lemma assert_None [simp]: "(assert c = None) = (\<not> c)"
  by (simp add: assert_def)

lemma BOUNDS_Some [simp]: "(BOUNDS v ub = Some u) = (0 \<le> v \<and> v < ub)"
  by (simp add: BOUNDS_def)

lemma assert_bind [simp]: "(assert c \<bind> f) = (if c then f () else None)"
  by (simp add: assert_def)

lemma BOUNDS_bind [simp]: "(BOUNDS v ub \<bind> f) = (if 0 \<le> v \<and> v < ub then f () else None)"
  by (simp add: BOUNDS_def)


lemma set_bb_squares: "set (bb_squares b) = {s. 0 \<le> s \<and> s < 64 \<and> bit b (nat s)}"
  by (auto simp: bb_squares_def)

lemma distinct_bb_squares: "distinct (bb_squares b)"
  by (simp add: bb_squares_def)

lemma bb_count_card: "bb_count b = int (card {s. 0 \<le> s \<and> s < 64 \<and> bit b (nat s)})"
  by (simp add: bb_count_def distinct_card [OF distinct_bb_squares, symmetric] set_bb_squares)

lemma bb_zero_iff: "(b = (0 :: 64 word)) = (\<forall>s. 0 \<le> s \<and> s < 64 \<longrightarrow> \<not> bit b (nat s))"
proof
  assume "b = 0" then show "\<forall>s. 0 \<le> s \<and> s < 64 \<longrightarrow> \<not> bit b (nat s)" by simp
next
  assume a: "\<forall>s. 0 \<le> s \<and> s < 64 \<longrightarrow> \<not> bit b (nat s)"
  show "b = 0"
  proof (rule bit_word_eqI)
    fix n assume "n < LENGTH(64)"
    then have "0 \<le> int n \<and> int n < 64" by simp
    with a have "\<not> bit b (nat (int n))" by blast
    then show "bit b n = bit (0 :: 64 word) n" by simp
  qed
qed

lemma cnt_zero_iff: "(cnt bs s = 0) = (\<forall>i < length bs. \<not> bit (bs ! i) (nat s))"
  by (simp add: cnt_def filter_empty_conv all_set_conv_all_nth)


lemma board_ok_iff:
  "board_ok pos =
     (length (byColor pos) = 2 \<and> length (byPiece pos) = 6
      \<and> (\<forall>s. 0 \<le> s \<and> s < 64 \<longrightarrow>
            cnt (byColor pos) s = cnt (byPiece pos) s \<and> cnt (byColor pos) s \<le> 1))"
  by (auto simp: board_ok_def list_all_iff)

lemma cnt2: "length bs = 2 \<Longrightarrow>
  cnt bs s = (if bit (bs ! 0) (nat s) then 1 else 0) + (if bit (bs ! 1) (nat s) then 1 else 0)"
  by (cases bs; cases "tl bs") (auto simp: cnt_def)


lemma board_ok_lengths: "board_ok pos \<Longrightarrow> length (byColor pos) = 2 \<and> length (byPiece pos) = 6"
  by (simp add: board_ok_iff)

lemma board_ok_disjoint:
  assumes "board_ok pos"
  shows "byColor pos ! 0 AND byColor pos ! 1 = 0"
proof -
  have len: "length (byColor pos) = 2" using assms by (simp add: board_ok_iff)
  have "\<not> (bit (byColor pos ! 0) (nat s) \<and> bit (byColor pos ! 1) (nat s))"
    if "0 \<le> s \<and> s < 64" for s
  proof -
    from assms that have "cnt (byColor pos) s \<le> 1" by (auto simp: board_ok_iff)
    then show ?thesis by (simp add: cnt2 [OF len] split: if_splits)
  qed
  then show ?thesis by (simp add: bb_zero_iff bit_and_iff)
qed

lemma board_ok_piece_colored:
  assumes "board_ok pos" and "i < 6" and "0 \<le> s \<and> s < 64"
    and "bit (byPiece pos ! i) (nat s)"
  shows "bit (byColor pos ! 0) (nat s) \<or> bit (byColor pos ! 1) (nat s)"
proof -
  have len: "length (byColor pos) = 2" "length (byPiece pos) = 6"
    using assms(1) by (simp_all add: board_ok_iff)
  from assms(2,4) len have "cnt (byPiece pos) s \<noteq> 0" by (auto simp: cnt_zero_iff)
  moreover from assms(1,3) have "cnt (byColor pos) s = cnt (byPiece pos) s"
    by (simp add: board_ok_iff)
  ultimately have "cnt (byColor pos) s \<noteq> 0" by simp
  then show ?thesis by (simp add: cnt2 [OF len(1)] split: if_splits)
qed

lemma board_ok_piece_empty:
  assumes "board_ok pos" and "i < 6"
  shows "(byPiece pos ! i = 0)
     = (byColor pos ! 0 AND byPiece pos ! i = 0 \<and> byColor pos ! 1 AND byPiece pos ! i = 0)"
proof
  assume "byPiece pos ! i = 0"
  then show "byColor pos ! 0 AND byPiece pos ! i = 0 \<and> byColor pos ! 1 AND byPiece pos ! i = 0"
    by simp
next
  assume a: "byColor pos ! 0 AND byPiece pos ! i = 0 \<and> byColor pos ! 1 AND byPiece pos ! i = 0"
  have "\<not> bit (byPiece pos ! i) (nat s)" if s: "0 \<le> s \<and> s < 64" for s
  proof
    assume b: "bit (byPiece pos ! i) (nat s)"
    from board_ok_piece_colored [OF assms s b]
    have "bit (byColor pos ! 0 AND byPiece pos ! i) (nat s)
        \<or> bit (byColor pos ! 1 AND byPiece pos ! i) (nat s)"
      using b by (simp add: bit_and_iff)
    with a show False by simp
  qed
  then show "byPiece pos ! i = 0" by (simp add: bb_zero_iff)
qed

lemma pos_pieces_board_ok:
  "board_ok pos \<Longrightarrow> pos_pieces pos = Some (byColor pos ! 0 OR byColor pos ! 1)"
  using board_ok_disjoint [of pos] by (simp add: pos_pieces_def at_def board_ok_lengths)

lemma pos_pieces_cp_board_ok:
  "board_ok pos \<Longrightarrow> 0 \<le> c \<Longrightarrow> c < 2 \<Longrightarrow> 0 \<le> p \<Longrightarrow> p < 6 \<Longrightarrow>
   pos_pieces_cp pos c p = Some (byColor pos ! nat c AND byPiece pos ! nat p)"
  by (simp add: pos_pieces_cp_def at_def board_ok_lengths)

text \<open>
  C10. On a well-formed board \<^verbatim>\<open>pos_insufficient_material\<close> returns true exactly when at
  most three squares are occupied and neither colour has a pawn, a rook or a queen.
\<close>

theorem pos_insufficient_material_iff:
  assumes "board_ok pos"
  shows "pos_insufficient_material pos =
     Some (card (occupied_squares pos) \<le> 3
           \<and> (\<forall>c \<in> {WHITE, BLACK}. \<forall>p \<in> {PAWN, ROOK, QUEEN}. pos_pieces_cp pos c p = Some 0))"
proof -
  have len: "length (byColor pos) = 2" "length (byPiece pos) = 6"
    using assms by (simp_all add: board_ok_lengths)
  have count: "bb_count (byColor pos ! 0 OR byColor pos ! 1) = int (card (occupied_squares pos))"
    by (simp add: bb_count_card occupied_squares_def bit_or_iff)
  have e5: "(byPiece pos ! 5 = 0)
     = (byColor pos ! 0 AND byPiece pos ! 5 = 0 \<and> byColor pos ! 1 AND byPiece pos ! 5 = 0)"
    by (rule board_ok_piece_empty [OF assms]) simp
  have e2: "(byPiece pos ! 2 = 0)
     = (byColor pos ! 0 AND byPiece pos ! 2 = 0 \<and> byColor pos ! 1 AND byPiece pos ! 2 = 0)"
    by (rule board_ok_piece_empty [OF assms]) simp
  have e3: "(byPiece pos ! 3 = 0)
     = (byColor pos ! 0 AND byPiece pos ! 3 = 0 \<and> byColor pos ! 1 AND byPiece pos ! 3 = 0)"
    by (rule board_ok_piece_empty [OF assms]) simp
  have "pos_insufficient_material pos
      = Some (bb_count (byColor pos ! 0 OR byColor pos ! 1) \<le> 3
              \<and> byPiece pos ! 5 = 0 \<and> byPiece pos ! 2 = 0 \<and> byPiece pos ! 3 = 0)"
    by (simp add: pos_insufficient_material_def pos_pieces_board_ok [OF assms] at_def len)
  also have "\<dots> = Some (card (occupied_squares pos) \<le> 3
           \<and> (\<forall>c \<in> {WHITE, BLACK}. \<forall>p \<in> {PAWN, ROOK, QUEEN}. pos_pieces_cp pos c p = Some 0))"
    using e5 e2 e3 count by (auto simp: pos_pieces_cp_board_ok [OF assms])
  finally show ?thesis .
qed


theorem pos_insufficient_material_witness:
  "board_ok K_vs_K \<and> pos_insufficient_material K_vs_K = Some True
   \<and> card (occupied_squares K_vs_K) \<le> 3"
proof -
  have h: "board_ok K_vs_K" by code_simp
  have e: "pos_insufficient_material K_vs_K = Some True" by code_simp
  from pos_insufficient_material_iff [OF h] e h show ?thesis by simp
qed

section \<open>Decoding and encoding concrete records\<close>

lemma pos_set_K_vs_K_short: "pos_set Z0 ''4k3/8/8/8/8/8/8/4K3 w'' False = Some (Some K_vs_K)"
  by code_simp

lemma pos_get_K_vs_K: "pos_get K_vs_K = Some ''4k3/8/8/8/8/8/8/4K3 w - - 0 1''"
  by code_simp

lemma pos_set_NN_same_file:
  "pos_set Z0 ''4k3/8/8/4N3/8/8/8/4N1K1 w - - 0 1'' False = Some (Some NN_same_file)"
  by code_simp

text \<open>
  C1, counterexample. The record \<^verbatim>\<open>4k3/8/8/8/8/8/8/4K3 w\<close> (the optional fields left out)
  is accepted, and the position encodes to a different text.
\<close>

theorem fen_round_trip_counterexample:
  "pos_set Z0 ''4k3/8/8/8/8/8/8/4K3 w'' False = Some (Some K_vs_K)
   \<and> pos_get K_vs_K = Some ''4k3/8/8/8/8/8/8/4K3 w - - 0 1''
   \<and> ''4k3/8/8/8/8/8/8/4K3 w - - 0 1'' \<noteq> ''4k3/8/8/8/8/8/8/4K3 w''"
  using pos_set_K_vs_K_short pos_get_K_vs_K by simp

text \<open>
  C9. A half-move clock of 256 is cut to 8 bits before it is compared with 100: the record is
  accepted, with the clock 0.
\<close>

theorem pos_set_clock_256_accepted:
  "\<exists>pos. pos_set Z0 ''4k3/8/8/8/8/8/8/4K3 w - - 256 1'' False = Some (Some pos)
         \<and> rule50 pos = 0"
proof -
  have "pos_set Z0 ''4k3/8/8/8/8/8/8/4K3 w - - 256 1'' False = Some (Some K_vs_K)"
    by code_simp
  moreover have "rule50 K_vs_K = 0" by (simp add: K_vs_K_def)
  ultimately show ?thesis by blast
qed

text \<open>
  C8, counterexample. White knights on e1 and e5 both reach d3 and stand on one file; the
  move Ne1-d3 is written with the rank alone, not with the full square.
\<close>

theorem san_same_file_counterexample:
  "pos_piece_on NN_same_file 4 = Some KNIGHT \<and> pos_piece_on NN_same_file 36 = Some KNIGHT
   \<and> knight_jump 4 19 \<and> knight_jump 36 19 \<and> sq_file 4 = sq_file 36
   \<and> pos_move_to_san NN_same_file \<lparr> move_from = 4, move_to = 19, move_prom = 6 \<rparr> []
       = Some ''N1d3''"
  by code_simp

section \<open>Standard algebraic notation of knight moves\<close>

lemma piece_loop_bounds:
  "piece_loop pos s ps = Some p \<Longrightarrow> ps \<noteq> [] \<Longrightarrow> 0 \<le> s \<and> s < 64"
  by (cases ps) (auto simp: bb_test_def bind_eq_Some_conv split: if_splits)

lemma pos_piece_on_bounds: "pos_piece_on pos s = Some p \<Longrightarrow> 0 \<le> s \<and> s < 64"
  by (auto simp: pos_piece_on_def split: if_splits)

lemma bb_single:
  assumes "\<And>n. bit (C :: 64 word) n = (n = nat other)" and "0 \<le> other" 
  shows "(x AND C \<noteq> 0) = bit x (nat other)"
proof -
  have "(x AND C = 0) = (\<not> bit x (nat other))"
  proof
    assume "x AND C = 0"
    then have "\<not> bit (x AND C) (nat other)" by simp
    then show "\<not> bit x (nat other)" using assms by (simp add: bit_and_iff)
  next
    assume "\<not> bit x (nat other)"
    then show "x AND C = 0" using assms
      by (intro bit_word_eqI) (auto simp: bit_and_iff)
  qed
  then show ?thesis by simp
qed

lemma slide_free_empty [simp]: "slide_free 0 a b"
  by (simp add: slide_free_def list_all_iff)

lemma sq_file_rank_eq: "sq_file a = sq_file b \<Longrightarrow> sq_rank a = sq_rank b \<Longrightarrow> a = b"
  unfolding sq_file_def sq_rank_def
  by (metis mult_div_mod_eq)


lemma san_contesters_knight:
  assumes len: "length (byColor pos) = 2" "length (byPiece pos) = 6"
    and turn: "turn pos = WHITE \<or> turn pos = BLACK"
    and "from": "0 \<le> from" "from < 64"
    and to: "0 \<le> to" "to < 64"
  shows "\<exists>C. san_contesters pos (turn pos) KNIGHT from to = Some C
           \<and> (\<forall>n. bit C n = (n < 64 \<and> knight_rival pos from to (int n)))"
proof -
  let ?C = "unset_bit (nat from) (byColor pos ! nat (turn pos) AND byPiece pos ! 0)
              AND bb_of (knight_jump to) AND NOT (pins pos)"
  have 1: "san_contesters pos (turn pos) KNIGHT from to = Some ?C"
    using len turn "from" to
    by (auto simp: san_contesters_def pos_pieces_cp_def at_def bb_clear_def KnightAttacks_def)
  have 2: "bit ?C n = (n < 64 \<and> knight_rival pos from to (int n))" for n
  proof -
    have "(n = nat from) = (int n = from)" using "from" by auto
    then show ?thesis
      by (auto simp: knight_rival_def bit_and_iff bit_unset_bit_iff bit_bb_of bit_not_iff
          dest: bit_imp_le_length)
  qed
  from 1 2 show ?thesis by blast
qed

lemma san_disambiguate_single:
  assumes "from": "0 \<le> from" "from < 64"
    and other: "0 \<le> other" "other < 64" "other \<noteq> from"
    and C: "\<And>n. bit (C :: 64 word) n = (n = nat other)"
  shows "san_disambiguate from C out =
     Some (out @ [if sq_file other \<noteq> sq_file from then char_of (sq_file from + 97)
                  else char_of (sq_rank from + 49)])"
proof -
  have nz: "C \<noteq> 0"
  proof
    assume "C = 0"
    then have "\<not> bit C (nat other)" by simp
    with C show False by simp
  qed
  have sel: "(x AND C \<noteq> 0) = bit x (nat other)" for x
    by (rule bb_single [OF C other(1)])
  have o: "nat other < 64" "int (nat other) = other" using other by auto
  have ra: "(bb_of (rook_line from) AND C \<noteq> 0) = rook_line from other"
    using other o by (simp add: sel bit_bb_of)
  have rk: "(bb_of (\<lambda>s. sq_rank s = from div 8) AND C \<noteq> 0) = (sq_rank other = sq_rank from)"
    using other o by (simp add: sel bit_bb_of sq_rank_def)
  have fl: "(bb_of (\<lambda>s. sq_file s = from mod 8) AND C \<noteq> 0) = (sq_file other = sq_file from)"
    using other o by (simp add: sel bit_bb_of sq_file_def)
  have b: "0 \<le> from div 8" "from div 8 < 8" "0 \<le> from mod 8" "from mod 8 < 8"
    using "from" by auto
  have neq: "\<not> (sq_file other = sq_file from \<and> sq_rank other = sq_rank from)"
    using sq_file_rank_eq [of other "from"] other(3) by blast
  have fr: "sq_file from = from mod 8" "sq_rank from = from div 8"
    by (simp_all add: sq_file_def sq_rank_def)
  have eq: "san_disambiguate from C out =
      Some (if rook_line from other
            then (if sq_rank other = sq_rank from then out @ [char_of (sq_file from + 97)] else out)
                 @ (if sq_file other = sq_file from then [char_of (sq_rank from + 49)] else [])
            else out @ [char_of (sq_file from + 97)])"
    using nz "from" b
    by (simp add: san_disambiguate_def bb_rook_attacks_def rank_of_def file_of_def Rank_def
        File_def ra rk fl fr)
  show ?thesis
    unfolding eq using neq other(3) by (auto simp: rook_line_def)
qed


lemma pos_move_is_capture_eq:
  assumes "length (byColor pos) = 2" and "turn pos = WHITE \<or> turn pos = BLACK"
    and "0 \<le> move_to m" "move_to m < 64"
  shows "pos_move_is_capture pos m
           = Some (bit (byColor pos ! nat (1 - turn pos)) (nat (move_to m)))"
  using assms by (auto simp: pos_move_is_capture_def opposite_def at_def bb_test_def)

lemma square_to_string_eq:
  "0 \<le> s \<Longrightarrow> s < 64 \<Longrightarrow>
   square_to_string s = Some [char_of (sq_file s + 97), char_of (sq_rank s + 49)]"
  by (simp add: square_to_string_def file_of_def rank_of_def sq_file_def sq_rank_def)

text \<open>
  C8, amended. When exactly one other unpinned knight of the side to move is a knight's jump
  from the destination, the move of a knight is written with the file of its origin when the
  two knights stand on different files, and with the rank of its origin (not the full
  square) when they stand on the same file.
\<close>

theorem san_two_knights:
  assumes len: "length (byColor pos) = 2" "length (byPiece pos) = 6"
    and turn: "turn pos = WHITE \<or> turn pos = BLACK"
    and piece: "pos_piece_on pos (move_from m) = Some KNIGHT"
    and to: "0 \<le> move_to m" "move_to m < 64"
    and rival: "filter (knight_rival pos (move_from m) (move_to m)) [0..63] = [other]"
  shows "pos_move_to_san pos m out =
     Some (out @ ''N''
           @ [if sq_file other \<noteq> sq_file (move_from m)
              then char_of (sq_file (move_from m) + 97)
              else char_of (sq_rank (move_from m) + 49)]
           @ (if bit (byColor pos ! nat (1 - turn pos)) (nat (move_to m)) then ''x'' else [])
           @ [char_of (sq_file (move_to m) + 97), char_of (sq_rank (move_to m) + 49)])"
proof -
  let ?from = "move_from m" and ?to = "move_to m"
  have "from": "0 \<le> ?from" "?from < 64"
    using pos_piece_on_bounds [OF piece] by simp_all
  from rival have "set (filter (knight_rival pos ?from ?to) [0..63]) = {other}" by simp
  then have r: "\<And>s. (0 \<le> s \<and> s \<le> 63 \<and> knight_rival pos ?from ?to s) = (s = other)"
    by auto
  from r [of other] have other: "0 \<le> other" "other < 64" "other \<noteq> ?from"
    by (auto simp: knight_rival_def)
  obtain C where C: "san_contesters pos (turn pos) KNIGHT ?from ?to = Some C"
    and bits: "\<And>n. bit C n = (n < 64 \<and> knight_rival pos ?from ?to (int n))"
    using san_contesters_knight [OF len turn "from" to] by blast
  have single: "bit C n = (n = nat other)" for n
  proof -
    have "(n < 64 \<and> knight_rival pos ?from ?to (int n)) = (int n = other)"
      using r [of "int n"] by auto
    also have "\<dots> = (n = nat other)" using other by auto
    finally show ?thesis by (simp add: bits)
  qed
  note dis = san_disambiguate_single [OF "from" other single, of "out @ [CHR ''N'']"]
  note cap = pos_move_is_capture_eq [OF len(1) turn to]
  note str = square_to_string_eq [OF to]
  have lbl: "at (PieceLabel 0) 0 = Some CHR ''N''"
    by (simp add: at_def PieceLabel_def)
  show ?thesis
    using C
    by (simp add: pos_move_to_san_def piece lbl dis cap str Let_def)
qed


theorem san_two_knights_witness:
  "pos_move_to_san NN_other_file \<lparr> move_from = 1, move_to = 11, move_prom = 6 \<rparr> [] = Some ''Nbd2''
   \<and> pos_move_to_san NN_same_file \<lparr> move_from = 4, move_to = 19, move_prom = 6 \<rparr> [] = Some ''N1d3''"
proof -
  let ?m1 = "\<lparr> move_from = 1, move_to = 11, move_prom = 6 \<rparr>"
  let ?m2 = "\<lparr> move_from = 4, move_to = 19, move_prom = 6 \<rparr>"
  have a1: "length (byColor NN_other_file) = 2" "length (byPiece NN_other_file) = 6"
    "turn NN_other_file = WHITE \<or> turn NN_other_file = BLACK"
    "0 \<le> move_to ?m1" "move_to ?m1 < 64"
    by (simp_all add: NN_other_file_def)
  have p1: "pos_piece_on NN_other_file (move_from ?m1) = Some KNIGHT" by code_simp
  have r1: "filter (knight_rival NN_other_file (move_from ?m1) (move_to ?m1)) [0..63] = [5]"
    by code_simp
  have a2: "length (byColor NN_same_file) = 2" "length (byPiece NN_same_file) = 6"
    "turn NN_same_file = WHITE \<or> turn NN_same_file = BLACK"
    "0 \<le> move_to ?m2" "move_to ?m2 < 64"
    by (simp_all add: NN_same_file_def)
  have p2: "pos_piece_on NN_same_file (move_from ?m2) = Some KNIGHT" by code_simp
  have r2: "filter (knight_rival NN_same_file (move_from ?m2) (move_to ?m2)) [0..63] = [36]"
    by code_simp
  have e1: "[] @ ''N''
           @ [if sq_file 5 \<noteq> sq_file (move_from ?m1)
              then char_of (sq_file (move_from ?m1) + 97)
              else char_of (sq_rank (move_from ?m1) + 49)]
           @ (if bit (byColor NN_other_file ! nat (1 - turn NN_other_file)) (nat (move_to ?m1)) then ''x'' else [])
           @ [char_of (sq_file (move_to ?m1) + 97), char_of (sq_rank (move_to ?m1) + 49)] = ''Nbd2''"
    by code_simp
  have e2: "[] @ ''N''
           @ [if sq_file 36 \<noteq> sq_file (move_from ?m2)
              then char_of (sq_file (move_from ?m2) + 97)
              else char_of (sq_rank (move_from ?m2) + 49)]
           @ (if bit (byColor NN_same_file ! nat (1 - turn NN_same_file)) (nat (move_to ?m2)) then ''x'' else [])
           @ [char_of (sq_file (move_to ?m2) + 97), char_of (sq_rank (move_to ?m2) + 49)] = ''N1d3''"
    by code_simp
  from san_two_knights [OF a1(1,2,3) p1 a1(4,5) r1, of "[]"]
       san_two_knights [OF a2(1,2,3) p2 a2(4,5) r2, of "[]"]
  show ?thesis unfolding e1 e2 by simp
qed

section \<open>The invariant engine: what it leaves alone\<close>

lemma finish_fields:
  assumes "finish pos = Some pos'"
  shows "byColor pos' = byColor pos \<and> byPiece pos' = byPiece pos \<and> turn pos' = turn pos
         \<and> castleRooks pos' = castleRooks pos \<and> key pos' = key pos
         \<and> epSquare pos' = epSquare pos \<and> rule50 pos' = rule50 pos
         \<and> fullMove pos' = fullMove pos \<and> lastMove pos' = lastMove pos
         \<and> chess960 pos' = chess960 pos"
  using assms by (auto simp: finish_def bind_eq_Some_conv Let_def)

lemma pos_king_square_cong:
  "byColor pos' = byColor pos \<Longrightarrow> byPiece pos' = byPiece pos \<Longrightarrow>
   pos_king_square pos' c = pos_king_square pos c"
  by (simp add: pos_king_square_def pos_pieces_cp_def)

section \<open>Moves: what a step changes\<close>

lemma clear_square_Some:
  "(clear_square Z pos c p s = Some pos') =
     (0 \<le> c \<and> c < 2 \<and> 0 \<le> p \<and> p < 6 \<and> 0 \<le> s \<and> s < 64
      \<and> c < int (length (byColor pos)) \<and> p < int (length (byPiece pos))
      \<and> pos' = pos\<lparr> byColor := (byColor pos)[nat c := unset_bit (nat s) (byColor pos ! nat c)],
                      byPiece := (byPiece pos)[nat p := unset_bit (nat s) (byPiece pos ! nat p)],
                      key := key pos XOR ZobristKey Z c p s \<rparr>)"
  by (auto simp: clear_square_def at_def bb_clear_def bind_eq_Some_conv)

lemma set_square_Some:
  "(set_square Z pos c p s = Some pos') =
     (0 \<le> c \<and> c < 2 \<and> 0 \<le> p \<and> p < 6 \<and> 0 \<le> s \<and> s < 64
      \<and> c < int (length (byColor pos)) \<and> p < int (length (byPiece pos))
      \<and> pos' = pos\<lparr> byColor := (byColor pos)[nat c := set_bit (nat s) (byColor pos ! nat c)],
                      byPiece := (byPiece pos)[nat p := set_bit (nat s) (byPiece pos ! nat p)],
                      key := key pos XOR ZobristKey Z c p s \<rparr>)"
  by (auto simp: set_square_def at_def bb_set_def bind_eq_Some_conv)

text \<open>Two positions agree on the square \<open>t\<close>: every colour set and piece set holds it alike.\<close>

lemma clear_square_other:
  assumes "clear_square Z pos c p s = Some pos'" and "0 \<le> t" and "t \<noteq> s"
  shows "bit (byColor pos' ! i) (nat t) = bit (byColor pos ! i) (nat t)
         \<and> bit (byPiece pos' ! j) (nat t) = bit (byPiece pos ! j) (nat t)"
proof -
  from assms have "nat t \<noteq> nat s" by (auto simp: clear_square_Some)
  with assms(1) show ?thesis
    by (auto simp: clear_square_Some nth_list_update bit_unset_bit_iff split: if_splits)
qed

lemma set_square_other:
  assumes "set_square Z pos c p s = Some pos'" and "0 \<le> t" and "t \<noteq> s"
  shows "bit (byColor pos' ! i) (nat t) = bit (byColor pos ! i) (nat t)
         \<and> bit (byPiece pos' ! j) (nat t) = bit (byPiece pos ! j) (nat t)"
proof -
  from assms have "nat t \<noteq> nat s" by (auto simp: set_square_Some)
  with assms(1) show ?thesis
    by (auto simp: set_square_Some nth_list_update bit_set_bit_iff split: if_splits)
qed

lemma move_capture_ep:
  "move_capture Z pos us piece capture to = Some pos' \<Longrightarrow> epSquare pos' = epSquare pos"
  by (auto simp: move_capture_def clear_square_Some bind_eq_Some_conv Let_def split: if_splits)

lemma move_capture_other:
  assumes "move_capture Z pos us piece capture to = Some pos'" and "0 \<le> t" and "t \<noteq> to"
  shows "bit (byColor pos' ! i) (nat t) = bit (byColor pos ! i) (nat t)
         \<and> bit (byPiece pos' ! j) (nat t) = bit (byPiece pos ! j) (nat t)"
proof (cases "capture = NB_PIECE")
  case True
  with assms show ?thesis by (simp add: move_capture_def)
next
  case False
  with assms(1) obtain c p1 where
    "clear_square Z (pos\<lparr> rule50 := 0 \<rparr>) c capture to = Some p1"
    and "pos' = p1\<lparr> castleRooks := castleRooks p1 AND NOT (push_bit (nat to) 1) \<rparr>"
    by (auto simp: move_capture_def bind_eq_Some_conv Let_def split: if_splits)
  with clear_square_other [OF this(1) assms(2,3), of i j] show ?thesis by simp
qed


lemma clear_square_ep:
  "clear_square Z pos c p s = Some pos' \<Longrightarrow> epSquare pos' = epSquare pos"
  by (auto simp: clear_square_Some)

lemma set_square_ep:
  "set_square Z pos c p s = Some pos' \<Longrightarrow> epSquare pos' = epSquare pos"
  by (auto simp: set_square_Some)

lemma move_pawn_ep:
  assumes "move_pawn Z before pos us them piece from to prom = Some pos'"
    and push: "push_inc us = Some push"
  shows "epSquare pos' =
               (if to = from + 2 * push
                   \<and> (\<exists>pa tp. PawnAttacks us (from + push) = Some pa
                          \<and> pos_pieces_cp pos them PAWN = Some tp \<and> pa AND tp \<noteq> 0)
                then (from + push) mod 256 else epSquare pos)"
proof -
  from assms obtain posB where
    B: "(if to = from + 2 * push then do {
                pa \<leftarrow> PawnAttacks us (from + push);
                tp \<leftarrow> pos_pieces_cp (pos\<lparr> rule50 := 0 \<rparr>) them PAWN;
                Some (if pa AND tp \<noteq> 0
                      then pos\<lparr> rule50 := 0, epSquare := (from + push) mod 256 \<rparr>
                      else pos\<lparr> rule50 := 0 \<rparr>)
              } else Some (pos\<lparr> rule50 := 0 \<rparr>)) = Some posB"
    and rest: "(if to = epSquare before then clear_square Z posB them piece (to - push)
               else do {
                 r \<leftarrow> rank_of to;
                 if r = RANK_8 \<or> r = RANK_1 then do {
                   pos \<leftarrow> clear_square Z posB us piece to;
                   set_square Z pos us prom to
                 } else Some posB
               }) = Some pos'"
    unfolding move_pawn_def Let_def by (simp add: bind_eq_Some_conv) blast
  have e: "epSquare pos' = epSquare posB"
  proof (cases "to = epSquare before")
    case True
    with rest show ?thesis by (simp add: clear_square_ep)
  next
    case False
    with rest obtain r where r: "(if r = RANK_8 \<or> r = RANK_1 then do {
                   pos \<leftarrow> clear_square Z posB us piece to;
                   set_square Z pos us prom to
                 } else Some posB) = Some pos'"
      by (auto simp: bind_eq_Some_conv)
    show ?thesis
    proof (cases "r = RANK_8 \<or> r = RANK_1")
      case True
      with r obtain q where "clear_square Z posB us piece to = Some q"
        "set_square Z q us prom to = Some pos'"
        by (auto simp: bind_eq_Some_conv)
      then show ?thesis by (simp add: clear_square_ep set_square_ep)
    next
      case False
      with r show ?thesis by auto
    qed
  qed
  have c: "pos_pieces_cp (pos\<lparr> rule50 := 0 \<rparr>) them PAWN = pos_pieces_cp pos them PAWN"
    by (simp add: pos_pieces_cp_def)
  have "epSquare posB =
               (if to = from + 2 * push
                   \<and> (\<exists>pa tp. PawnAttacks us (from + push) = Some pa
                          \<and> pos_pieces_cp pos them PAWN = Some tp \<and> pa AND tp \<noteq> 0)
                then (from + push) mod 256 else epSquare pos)"
  proof (cases "to = from + 2 * push")
    case True
    with B obtain pa tp where pt: "PawnAttacks us (from + push) = Some pa"
      "pos_pieces_cp pos them PAWN = Some tp"
      and posB: "posB = (if pa AND tp \<noteq> 0
                      then pos\<lparr> rule50 := 0, epSquare := (from + push) mod 256 \<rparr>
                      else pos\<lparr> rule50 := 0 \<rparr>)"
      unfolding c by (auto simp: bind_eq_Some_conv)
    show ?thesis using True pt by (simp add: posB)
  next
    case False
    with B have "posB = pos\<lparr> rule50 := 0 \<rparr>" by simp
    with False show ?thesis by simp
  qed
  with e show ?thesis by simp
qed

lemma move_king_ep:
  assumes "move_king Z before pos us from to = Some pos'"
  shows "epSquare pos' = epSquare pos"
proof -
  from assms obtain bk t where
    rest: "(if t then do {
       p \<leftarrow> pos_piece_on before to;
       assert (p = ROOK);
       rank \<leftarrow> rank_of from;
       pos \<leftarrow> clear_square Z (pos\<lparr> castleRooks := castleRooks pos AND NOT bk \<rparr>) us KING to;
       ks \<leftarrow> square_from rank (if to > from then FILE_G else FILE_C);
       pos \<leftarrow> set_square Z pos us KING ks;
       rs \<leftarrow> square_from rank (if to > from then FILE_F else FILE_D);
       set_square Z pos us ROOK rs
     } else Some (pos\<lparr> castleRooks := castleRooks pos AND NOT bk \<rparr>)) = Some pos'"
    unfolding move_king_def Let_def by (simp add: bind_eq_Some_conv) blast
  show ?thesis
  proof (cases t)
    case True
    with rest obtain q1 q2 ks rs where
      "clear_square Z (pos\<lparr> castleRooks := castleRooks pos AND NOT bk \<rparr>) us KING to = Some q1"
      "set_square Z q1 us KING ks = Some q2" "set_square Z q2 us ROOK rs = Some pos'"
      by (auto simp: bind_eq_Some_conv split: if_splits)
    then show ?thesis
      using clear_square_ep set_square_ep by fastforce
  next
    case False
    with rest show ?thesis by auto
  qed
qed


lemma piece_loop_cong:
  "byPiece pos' = byPiece pos \<Longrightarrow> piece_loop pos' s ps = piece_loop pos s ps"
  by (induction ps) (simp_all cong: if_cong)

lemma pos_piece_on_cong:
  "byPiece pos' = byPiece pos \<Longrightarrow> pos_piece_on pos' s = pos_piece_on pos s"
  by (simp add: pos_piece_on_def piece_loop_cong cong: if_cong)

lemma pos_move_steps:
  assumes "pos_move Z before m = Some pos"
  obtains them piece capture p1 p2 where
    "opposite (turn before) = Some them"
    "pos_piece_on before (move_from m) = Some piece"
    "pos_piece_on before (move_to m) = Some capture"
    "move_capture Z (before\<lparr> rule50 := (rule50 before + 1) mod 256, epSquare := 64 \<rparr>)
       (turn before) piece capture (move_to m) = Some p1"
    "move_piece Z before p1 (turn before) them piece (move_from m) (move_to m) (move_prom m)
       = Some p2"
    "move_end Z before p2 them m = Some pos"
proof -
  have pp: "pos_piece_on (before\<lparr> rule50 := r, epSquare := e \<rparr>) s = pos_piece_on before s"
    for r e s
    by (rule pos_piece_on_cong) simp
  from assms show ?thesis
    unfolding pos_move_def Let_def
    by (simp add: bind_eq_Some_conv pp) (use that in blast)
qed

lemma move_end_fields:
  assumes "move_end Z before p them m = Some pos"
  shows "byColor pos = byColor p \<and> byPiece pos = byPiece p \<and> epSquare pos = epSquare p
         \<and> castleRooks pos = castleRooks p \<and> turn pos = them mod 256 \<and> lastMove pos = m"
proof -
  from assms obtain q where f: "finish q = Some pos"
    and q: "byColor q = byColor p \<and> byPiece q = byPiece p \<and> epSquare q = epSquare p
         \<and> castleRooks q = castleRooks p \<and> turn q = them mod 256 \<and> lastMove q = m"
    by (auto simp: move_end_def Let_def bind_eq_Some_conv)
  from finish_fields [OF f] q show ?thesis by simp
qed

lemma move_piece_ep:
  assumes "move_piece Z before pos us them piece from to prom = Some pos'"
    and "epSquare pos = NB_SQUARE" and push: "push_inc us = Some push"
  obtains q1 q2 where
    "clear_square Z pos us piece from = Some q1"
    "set_square Z q1 us piece to = Some q2"
    "epSquare pos' =
       (if piece = PAWN \<and> to = from + 2 * push
           \<and> (\<exists>pa tp. PawnAttacks us (from + push) = Some pa
                  \<and> pos_pieces_cp q2 them PAWN = Some tp \<and> pa AND tp \<noteq> 0)
        then (from + push) mod 256 else NB_SQUARE)"
proof -
  from assms(1) obtain q1 q2 where
    q1: "clear_square Z pos us piece from = Some q1"
    and q2: "set_square Z q1 us piece to = Some q2"
    and rest: "(if piece \<le> QUEEN
          then Some (q2\<lparr> castleRooks := castleRooks q2 AND NOT (push_bit (nat from) 1) \<rparr>)
          else if piece = PAWN then move_pawn Z before q2 us them piece from to prom
          else if piece = KING then move_king Z before q2 us from to
          else Some q2) = Some pos'"
    by (auto simp: move_piece_def bind_eq_Some_conv split: if_splits)
  have e2: "epSquare q2 = NB_SQUARE"
    using clear_square_ep [OF q1] set_square_ep [OF q2] assms(2) by simp
  have "epSquare pos' =
       (if piece = PAWN \<and> to = from + 2 * push
           \<and> (\<exists>pa tp. PawnAttacks us (from + push) = Some pa
                  \<and> pos_pieces_cp q2 them PAWN = Some tp \<and> pa AND tp \<noteq> 0)
        then (from + push) mod 256 else NB_SQUARE)"
  proof (cases "piece = PAWN")
    case True
    with rest have "move_pawn Z before q2 us them piece from to prom = Some pos'" by simp
    from move_pawn_ep [OF this push] True e2 show ?thesis by auto
  next
    case False
    have "epSquare pos' = NB_SQUARE"
    proof (cases "piece \<le> QUEEN")
      case True
      with rest e2 show ?thesis by auto
    next
      case nq: False
      show ?thesis
      proof (cases "piece = KING")
        case True
        with rest nq have "move_king Z before q2 us from to = Some pos'" by simp
        from move_king_ep [OF this] e2 show ?thesis by simp
      next
        case nk: False
        with rest nq False e2 show ?thesis by auto
      qed
    qed
    with False show ?thesis by simp
  qed
  with q1 q2 that show ?thesis by blast
qed


lemma bb_nonzero_iff: "(b \<noteq> (0 :: 64 word)) = (\<exists>s. 0 \<le> s \<and> s < 64 \<and> bit b (nat s))"
  by (auto simp: bb_zero_iff)

lemma pawn_capture_sym:
  "us = 0 \<or> us = 1 \<Longrightarrow> pawn_capture us a t = pawn_capture (1 - us) t a"
  by (auto simp: pawn_capture_def)

lemma sq_rank_shift:
  "sq_rank (a + 8) = sq_rank a + 1" "sq_rank (a - 8) = sq_rank a - 1"
  "sq_rank (a + 16) = sq_rank a + 2" "sq_rank (a - 16) = sq_rank a - 2"
proof -
  show "sq_rank (a + 8) = sq_rank a + 1" by (simp add: sq_rank_def)
  show "sq_rank (a - 8) = sq_rank a - 1"
    using div_mult_self1 [of 8 a "- 1"] by (simp add: sq_rank_def)
  show "sq_rank (a + 16) = sq_rank a + 2"
    using div_mult_self1 [of 8 a 2] by (simp add: sq_rank_def)
  show "sq_rank (a - 16) = sq_rank a - 2"
    using div_mult_self1 [of 8 a "- 2"] by (simp add: sq_rank_def)
qed

lemma sq_file_shift:
  "sq_file (a + 8) = sq_file a" "sq_file (a - 8) = sq_file a"
  "sq_file (a + 16) = sq_file a" "sq_file (a - 16) = sq_file a"
proof -
  show "sq_file (a + 8) = sq_file a" by (simp add: sq_file_def)
  show "sq_file (a - 8) = sq_file a"
    using mod_mult_self1 [of a "- 1" 8] by (simp add: sq_file_def)
  show "sq_file (a + 16) = sq_file a"
    using mod_mult_self1 [of a 2 8] by (simp add: sq_file_def)
  show "sq_file (a - 16) = sq_file a"
    using mod_mult_self1 [of a "- 2" 8] by (simp add: sq_file_def)
qed

lemmas sq_shift8 = sq_rank_shift sq_file_shift

lemma pawn_capture_not_ends:
  assumes "pawn_capture us (from + push) t" and "push = (if us = WHITE then UP else DOWN)"
  shows "t \<noteq> from \<and> t \<noteq> from + 2 * push"
proof -
  have r: "sq_rank (from + push) = sq_rank from + (if us = WHITE then 1 else - 1)"
    "sq_rank (from + 2 * push) = sq_rank from + 2 * (if us = WHITE then 1 else - 1)"
    "sq_file (from + push) = sq_file from" "sq_file (from + 2 * push) = sq_file from"
    using assms(2) by (auto simp: sq_shift8)
  from assms(1) have "sq_rank t \<noteq> sq_rank from" "sq_file t \<noteq> sq_file (from + 2 * push)"
    unfolding pawn_capture_def r by (auto split: if_splits)
  then show ?thesis by auto
qed

text \<open>
  C7. After \<^verbatim>\<open>pos_move\<close> the en-passant square is the skipped square when the move is a
  double push of a pawn and an enemy pawn stands where it captures on the skipped square;
  after every other move it is the "none" value \<^verbatim>\<open>NB_SQUARE\<close>.
\<close>

theorem pos_move_en_passant:
  assumes mv: "pos_move Z before m = Some pos"
    and len: "length (byColor before) = 2" "length (byPiece before) = 6"
    and push: "push_inc (turn before) = Some push"
    and them: "opposite (turn before) = Some them"
  shows "epSquare pos =
     (if pos_piece_on before (move_from m) = Some PAWN
         \<and> move_to m = move_from m + 2 * push
         \<and> pawn_can_capture before them (move_from m + push)
      then move_from m + push else NB_SQUARE)"
proof -
  let ?from = "move_from m" and ?to = "move_to m" and ?us = "turn before"
  let ?p0 = "before\<lparr> rule50 := (rule50 before + 1) mod 256, epSquare := 64 \<rparr>"
  from pos_move_steps [OF mv] them obtain piece capture p1 p2 where
    piece: "pos_piece_on before ?from = Some piece"
    and cap: "pos_piece_on before ?to = Some capture"
    and mc: "move_capture Z ?p0 ?us piece capture ?to = Some p1"
    and mp: "move_piece Z before p1 ?us them piece ?from ?to (move_prom m) = Some p2"
    and me: "move_end Z before p2 them m = Some pos"
    by (metis option.inject)
  have us: "?us = 0 \<or> ?us = 1" and them_eq: "them = 1 - ?us"
    and push_eq: "push = (if ?us = WHITE then UP else DOWN)"
    using them push by (auto simp: opposite_def push_inc_def split: if_splits)
  have fb: "0 \<le> ?from" "?from < 64" "0 \<le> ?to" "?to < 64"
    using pos_piece_on_bounds [OF piece] pos_piece_on_bounds [OF cap] by simp_all
  have e1: "epSquare p1 = NB_SQUARE" using move_capture_ep [OF mc] by simp
  from move_piece_ep [OF mp e1 push] obtain q1 q2 where
    q1: "clear_square Z p1 ?us piece ?from = Some q1"
    and q2: "set_square Z q1 ?us piece ?to = Some q2"
    and ep2: "epSquare p2 =
       (if piece = PAWN \<and> ?to = ?from + 2 * push
           \<and> (\<exists>pa tp. PawnAttacks ?us (?from + push) = Some pa
                  \<and> pos_pieces_cp q2 them PAWN = Some tp \<and> pa AND tp \<noteq> 0)
        then (?from + push) mod 256 else NB_SQUARE)"
    by blast
  have ep: "epSquare pos = epSquare p2" using move_end_fields [OF me] by simp
  have lens: "length (byColor q2) = 2" "length (byPiece q2) = 6"
    using q1 q2 mc len
    by (auto simp: clear_square_Some set_square_Some move_capture_def bind_eq_Some_conv Let_def
        split: if_splits)
  have same: "bit (byColor q2 ! i) (nat t) = bit (byColor before ! i) (nat t)
            \<and> bit (byPiece q2 ! j) (nat t) = bit (byPiece before ! j) (nat t)"
    if "0 \<le> t" "t \<noteq> ?from" "t \<noteq> ?to" for t i j
    using set_square_other [OF q2 that(1,3), of i j] clear_square_other [OF q1 that(1,2), of i j]
      move_capture_other [OF mc that(1,3), of i j]
    by simp
  have key: "(\<exists>pa tp. PawnAttacks ?us (?from + push) = Some pa
                  \<and> pos_pieces_cp q2 them PAWN = Some tp \<and> pa AND tp \<noteq> 0)
       = pawn_can_capture before them (?from + push)"
    if dbl: "?to = ?from + 2 * push"
  proof -
    have mid: "0 \<le> ?from + push" "?from + push < 64"
      using fb dbl push_eq by (auto split: if_splits)
    have pa: "PawnAttacks ?us (?from + push) = Some (bb_of (pawn_capture ?us (?from + push)))"
      using us mid by (auto simp: PawnAttacks_def)
    have tp: "pos_pieces_cp q2 them 5 = Some (byColor q2 ! nat them AND byPiece q2 ! 5)"
      using us them_eq lens by (auto simp: pos_pieces_cp_def at_def)
    have eq: "(bit (byColor q2 ! nat them) (nat t) \<and> bit (byPiece q2 ! 5) (nat t))
            = (bit (byColor before ! nat them) (nat t) \<and> bit (byPiece before ! 5) (nat t))"
      if "0 \<le> t" "pawn_capture ?us (?from + push) t" for t
    proof -
      from pawn_capture_not_ends [OF that(2) push_eq] dbl
      have "t \<noteq> ?from" "t \<noteq> ?to" by simp_all
      from same [OF that(1) this] show ?thesis by simp
    qed
    have "(bb_of (pawn_capture ?us (?from + push)) AND (byColor q2 ! nat them AND byPiece q2 ! 5) \<noteq> 0)
        = (\<exists>t. 0 \<le> t \<and> t < 64 \<and> pawn_capture ?us (?from + push) t
                \<and> bit (byColor q2 ! nat them) (nat t) \<and> bit (byPiece q2 ! 5) (nat t))"
      by (auto simp: bb_nonzero_iff bit_and_iff bit_bb_of)
    also have "\<dots> = (\<exists>t. 0 \<le> t \<and> t < 64 \<and> pawn_capture ?us (?from + push) t
                \<and> bit (byColor before ! nat them) (nat t) \<and> bit (byPiece before ! 5) (nat t))"
    proof (rule ex_cong1)
      fix t
      show "(0 \<le> t \<and> t < 64 \<and> pawn_capture ?us (?from + push) t
                \<and> bit (byColor q2 ! nat them) (nat t) \<and> bit (byPiece q2 ! 5) (nat t))
          = (0 \<le> t \<and> t < 64 \<and> pawn_capture ?us (?from + push) t
                \<and> bit (byColor before ! nat them) (nat t) \<and> bit (byPiece before ! 5) (nat t))"
      proof (cases "0 \<le> t \<and> pawn_capture ?us (?from + push) t")
        case True
        with eq [of t] show ?thesis by simp
      next
        case False
        then show ?thesis by auto
      qed
    qed
    also have "\<dots> = pawn_can_capture before them (?from + push)"
      using pawn_capture_sym [OF us] them_eq
      by (auto simp: pawn_can_capture_def list_ex_iff)
    finally show ?thesis by (simp add: pa tp)
  qed
  have md: "(?from + push) mod 256 = ?from + push" if "?to = ?from + 2 * push"
    using fb that push_eq by (auto split: if_splits)
  show ?thesis
    unfolding ep ep2 using key md piece by auto
qed


theorem pos_move_en_passant_witness:
  "pos_move Z0 P_e2e4 \<lparr> move_from = 12, move_to = 28, move_prom = 6 \<rparr> = Some P_e2e4_after
   \<and> pos_piece_on P_e2e4 12 = Some PAWN \<and> pawn_can_capture P_e2e4 BLACK 20
   \<and> epSquare P_e2e4_after = 20"
proof -
  let ?m = "\<lparr> move_from = 12, move_to = 28, move_prom = 6 \<rparr>"
  have mv: "pos_move Z0 P_e2e4 ?m = Some P_e2e4_after" by code_simp
  have len: "length (byColor P_e2e4) = 2" "length (byPiece P_e2e4) = 6"
    by (simp_all add: P_e2e4_def)
  have push: "push_inc (turn P_e2e4) = Some 8" by code_simp
  have them: "opposite (turn P_e2e4) = Some 1" by code_simp
  have c1: "pos_piece_on P_e2e4 12 = Some PAWN" by code_simp
  have c2: "pawn_can_capture P_e2e4 1 20" by code_simp
  from pos_move_en_passant [OF mv len push them] c1 c2
  have "epSquare P_e2e4_after = 20" by simp
  with mv c1 c2 show ?thesis by simp
qed

section \<open>Geometry of lines\<close>

lemma sq_file_range: "0 \<le> sq_file a \<and> sq_file a < 8"
  by (simp add: sq_file_def)

lemma sq_decomp: "a = 8 * sq_rank a + sq_file a"
  by (simp add: sq_file_def sq_rank_def)

lemma sq_file_compose: "0 \<le> f \<Longrightarrow> f < 8 \<Longrightarrow> sq_file (8 * r + f) = f"
  by (simp add: sq_file_def)

lemma sq_rank_compose: "0 \<le> f \<Longrightarrow> f < 8 \<Longrightarrow> sq_rank (8 * r + f) = r"
  by (simp add: sq_rank_def)

text \<open>A line from \<open>a\<close> to \<open>b\<close>, by its direction and its length.\<close>

lemma line_shape:
  assumes "rook_line a b \<or> bishop_line a b"
  obtains df dr n where
    "df = sgn (sq_file b - sq_file a)" "dr = sgn (sq_rank b - sq_rank a)"
    "n = sq_dist a b" "1 \<le> n"
    "sq_file b = sq_file a + n * df" "sq_rank b = sq_rank a + n * dr"
    "df \<noteq> 0 \<or> dr \<noteq> 0"
    "rook_line a b = (df = 0 \<or> dr = 0)" "bishop_line a b = (df \<noteq> 0 \<and> dr \<noteq> 0)"
proof -
  let ?df = "sgn (sq_file b - sq_file a)" and ?dr = "sgn (sq_rank b - sq_rank a)"
  let ?n = "sq_dist a b"
  have ne: "sq_file a \<noteq> sq_file b \<or> sq_rank a \<noteq> sq_rank b"
    using assms sq_file_rank_eq [of a b] by (auto simp: rook_line_def bishop_line_def)
  have 1: "1 \<le> ?n" using ne by (auto simp: sq_dist_def)
  have 2: "sq_file b = sq_file a + ?n * ?df"
    using assms by (auto simp: rook_line_def bishop_line_def sq_dist_def sgn_if)
  have 3: "sq_rank b = sq_rank a + ?n * ?dr"
    using assms by (auto simp: rook_line_def bishop_line_def sq_dist_def sgn_if)
  have 4: "?df \<noteq> 0 \<or> ?dr \<noteq> 0" using ne by (auto simp: sgn_if)
  have 5: "rook_line a b = (?df = 0 \<or> ?dr = 0)"
    using assms ne by (auto simp: rook_line_def bishop_line_def sgn_if)
  have 6: "bishop_line a b = (?df \<noteq> 0 \<and> ?dr \<noteq> 0)"
    using assms ne by (auto simp: rook_line_def bishop_line_def sgn_if)
  from that [OF refl refl refl 1 2 3 4 5 6] show ?thesis .
qed


lemma towards_coords:
  assumes line: "rook_line a b \<or> bishop_line a b" and k: "0 \<le> k" "k \<le> sq_dist a b"
  shows "sq_file (sq_towards a b k) = sq_file a + k * sgn (sq_file b - sq_file a)"
    and "sq_rank (sq_towards a b k) = sq_rank a + k * sgn (sq_rank b - sq_rank a)"
proof -
  from line obtain df dr n where
    d: "df = sgn (sq_file b - sq_file a)" "dr = sgn (sq_rank b - sq_rank a)"
    and n: "n = sq_dist a b" and fb: "sq_file b = sq_file a + n * df"
    by (rule line_shape)
  have "df = 0 \<or> df = 1 \<or> df = - 1" using d by (auto simp: sgn_if)
  then have r: "0 \<le> sq_file a + k * df \<and> sq_file a + k * df < 8"
    using sq_file_range [of a] sq_file_range [of b] fb k n by auto
  have t: "sq_towards a b k = 8 * (sq_rank a + k * dr) + (sq_file a + k * df)"
    by (simp add: sq_towards_def d)
  have "sq_file (8 * (sq_rank a + k * dr) + (sq_file a + k * df)) = sq_file a + k * df"
    by (rule sq_file_compose) (use r in auto)
  then show "sq_file (sq_towards a b k) = sq_file a + k * sgn (sq_file b - sq_file a)"
    by (simp only: t d)
  have "sq_rank (8 * (sq_rank a + k * dr) + (sq_file a + k * df)) = sq_rank a + k * dr"
    by (rule sq_rank_compose) (use r in auto)
  then show "sq_rank (sq_towards a b k) = sq_rank a + k * sgn (sq_rank b - sq_rank a)"
    by (simp only: t d)
qed

lemma towards_end:
  assumes "rook_line a b \<or> bishop_line a b"
  shows "sq_towards a b (sq_dist a b) = b"
proof -
  from assms obtain df dr n where
    d: "df = sgn (sq_file b - sq_file a)" "dr = sgn (sq_rank b - sq_rank a)"
    and n: "n = sq_dist a b" and fb: "sq_file b = sq_file a + n * df"
    and rb: "sq_rank b = sq_rank a + n * dr"
    by (rule line_shape)
  have "sq_towards a b n = 8 * (sq_rank a + n * dr) + (sq_file a + n * df)"
    by (simp only: sq_towards_def d)
  also have "\<dots> = 8 * sq_rank b + sq_file b" by (simp only: fb rb)
  also have "\<dots> = b" by (rule sq_decomp [symmetric])
  finally show ?thesis by (simp only: n)
qed

lemma between_iff:
  "(s \<in> set (between_sqs a b)) =
     ((rook_line a b \<or> bishop_line a b)
      \<and> (\<exists>k. 1 \<le> k \<and> k < sq_dist a b \<and> s = sq_towards a b k))"
  by (auto simp: between_sqs_def)

lemma between_not_ends:
  assumes "s \<in> set (between_sqs a b)"
  shows "s \<noteq> a \<and> s \<noteq> b"
proof -
  from assms obtain k where line: "rook_line a b \<or> bishop_line a b"
    and k: "1 \<le> k" "k < sq_dist a b" and s: "s = sq_towards a b k"
    by (auto simp: between_iff)
  from line obtain df dr n where
    d: "df = sgn (sq_file b - sq_file a)" "dr = sgn (sq_rank b - sq_rank a)"
    and n: "n = sq_dist a b" and fb: "sq_file b = sq_file a + n * df"
    and rb: "sq_rank b = sq_rank a + n * dr" and nz: "df \<noteq> 0 \<or> dr \<noteq> 0"
    by (rule line_shape)
  have c: "sq_file s = sq_file a + k * df" "sq_rank s = sq_rank a + k * dr"
    using towards_coords [OF line, of k] k s d by simp_all
  have "sq_file s \<noteq> sq_file a \<or> sq_rank s \<noteq> sq_rank a"
    using c nz k by auto
  moreover have "sq_file s \<noteq> sq_file b \<or> sq_rank s \<noteq> sq_rank b"
    using c fb rb nz k n by auto
  ultimately show ?thesis by auto
qed


section \<open>The invariant engine: pins\<close>

lemma not_several_unique:
  assumes "\<not> bb_several b" and "bit b (nat s)" "0 \<le> s" "s < 64"
    and "bit b (nat t)" "0 \<le> t" "t < 64"
  shows "s = t"
proof -
  have "s \<in> set (bb_squares b)" "t \<in> set (bb_squares b)"
    using assms by (auto simp: set_bb_squares)
  moreover from assms(1) have "length (bb_squares b) \<le> 1" by (simp add: bb_several_def)
  ultimately show ?thesis by (cases "bb_squares b") auto
qed

lemma pin_step_Some:
  assumes step: "pin_step pos us king x acc = Some res"
    and line: "rook_line king x \<or> bishop_line king x"
    and s: "0 \<le> s" "s < 64" "bit res (nat s)" "\<not> bit acc (nat s)"
  shows "bit (byColor pos ! nat us) (nat s) \<and> s \<in> set (between_sqs king x)
         \<and> (\<forall>t \<in> set (between_sqs king x). t \<in> occupied_squares pos \<longrightarrow> t = s)"
proof -
  from step have "\<exists>occ ours. 0 \<le> king \<and> king < 64 \<and> 0 \<le> x \<and> x < 64
      \<and> pos_pieces pos = Some occ \<and> at (byColor pos) us = Some ours"
    by (auto simp: pin_step_def Segment_def bb_clear_def bind_eq_Some_conv split: if_splits)
  then obtain occ ours where
    kx: "0 \<le> king" "king < 64" "0 \<le> x" "x < 64"
    and occ: "pos_pieces pos = Some occ"
    and ours: "at (byColor pos) us = Some ours"
    by blast
  have "pin_step pos us king x acc =
      Some (let sk = unset_bit (nat x) (unset_bit (nat king)
                 (bb_of (\<lambda>s. s = king \<or> s = x \<or> s \<in> set (between_sqs king x)) AND occ))
               in if \<not> bb_several sk \<and> sk AND ours \<noteq> 0 then acc OR sk else acc)"
    using kx line by (simp add: pin_step_def Segment_def bb_clear_def occ ours Let_def)
  with step have res: "res = (let sk = unset_bit (nat x) (unset_bit (nat king)
                 (bb_of (\<lambda>s. s = king \<or> s = x \<or> s \<in> set (between_sqs king x)) AND occ))
               in if \<not> bb_several sk \<and> sk AND ours \<noteq> 0 then acc OR sk else acc)"
    by simp
  define sk where "sk = unset_bit (nat x) (unset_bit (nat king)
                 (bb_of (\<lambda>s. s = king \<or> s = x \<or> s \<in> set (between_sqs king x)) AND occ))"
  have occ_eq: "occ = byColor pos ! 0 OR byColor pos ! 1"
    using occ by (auto simp: pos_pieces_def at_def bind_eq_Some_conv split: if_splits)
  have ours_eq: "ours = byColor pos ! nat us" using ours by (auto simp: at_def split: if_splits)
  have sk_bit: "bit sk (nat t) = (t \<in> set (between_sqs king x) \<and> t \<in> occupied_squares pos)"
    if "0 \<le> t" "t < 64" for t
  proof -
    have "(nat t = nat x) = (t = x)" "(nat t = nat king) = (t = king)"
      using that kx by auto
    then show ?thesis
      using that between_not_ends [of t king x]
      by (auto simp: sk_def bit_unset_bit_iff bit_and_iff bit_bb_of occ_eq occupied_squares_def
          bit_or_iff)
  qed
  from res s(3,4) have cond: "\<not> bb_several sk" "sk AND ours \<noteq> 0" and rs: "bit sk (nat s)"
    by (auto simp: sk_def [symmetric] Let_def bit_or_iff split: if_splits)
  from cond(2) obtain s0 where s0: "0 \<le> s0" "s0 < 64" "bit sk (nat s0)" "bit ours (nat s0)"
    by (auto simp: bb_nonzero_iff bit_and_iff)
  have "s0 = s" by (rule not_several_unique [OF cond(1) s0(3,1,2) rs s(1,2)])
  with s0 have a: "bit (byColor pos ! nat us) (nat s)" by (simp add: ours_eq)
  have b: "s \<in> set (between_sqs king x)" using rs sk_bit [OF s(1,2)] by simp
  have c: "t = s" if "t \<in> set (between_sqs king x)" "t \<in> occupied_squares pos" for t
  proof -
    from that(2) have t: "0 \<le> t" "t < 64" by (auto simp: occupied_squares_def)
    with that have "bit sk (nat t)" by (simp add: sk_bit)
    from not_several_unique [OF cond(1) this t rs s(1,2)] show ?thesis .
  qed
  from a b c show ?thesis by blast
qed


lemma foldM_pin_step:
  assumes "foldM (pin_step pos us king) xs acc = Some res"
    and "\<forall>x \<in> set xs. rook_line king x \<or> bishop_line king x"
    and "0 \<le> s" "s < 64" "bit res (nat s)" "\<not> bit acc (nat s)"
  shows "\<exists>x \<in> set xs. bit (byColor pos ! nat us) (nat s) \<and> s \<in> set (between_sqs king x)
           \<and> (\<forall>t \<in> set (between_sqs king x). t \<in> occupied_squares pos \<longrightarrow> t = s)"
  using assms
proof (induction xs arbitrary: acc)
  case Nil
  then show ?case by simp
next
  case (Cons x xs)
  from Cons.prems(1) obtain mid where
    step: "pin_step pos us king x acc = Some mid"
    and rest: "foldM (pin_step pos us king) xs mid = Some res"
    by (auto simp: bind_eq_Some_conv)
  show ?case
  proof (cases "bit mid (nat s)")
    case True
    from Cons.prems(2) have "rook_line king x \<or> bishop_line king x" by simp
    from pin_step_Some [OF step this Cons.prems(3,4) True Cons.prems(6)]
    show ?thesis by simp
  next
    case False
    from Cons.prems(2) have "\<forall>x \<in> set xs. rook_line king x \<or> bishop_line king x" by simp
    from Cons.IH [OF rest this Cons.prems(3,4,5) False]
    show ?thesis by auto
  qed
qed

lemma pinned_by_code [code]:
  "pinned_by pos king x s =
     (bit (byColor pos ! nat (1 - turn pos)) (nat x)
      \<and> ((rook_line king x \<and> (bit (byPiece pos ! nat ROOK) (nat x) \<or> bit (byPiece pos ! nat QUEEN) (nat x)))
          \<or> (bishop_line king x \<and> (bit (byPiece pos ! nat BISHOP) (nat x) \<or> bit (byPiece pos ! nat QUEEN) (nat x))))
      \<and> s \<in> set (between_sqs king x)
      \<and> (\<forall>t \<in> set (between_sqs king x).
            (0 \<le> t \<and> t < 64 \<and> (bit (byColor pos ! 0) (nat t) \<or> bit (byColor pos ! 1) (nat t)))
              \<longrightarrow> t = s))"
  by (simp add: pinned_by_def occupied_squares_def)

text \<open>
  C5. In every position the invariant engine returns, a square of \<^verbatim>\<open>pins\<close> holds a piece
  of the side to move, lies strictly between that side's king and an enemy slider on a
  common line (rook or queen on a rank or file, bishop or queen on a diagonal), and is the
  only occupied square strictly between them.
\<close>

theorem finish_pins_invariant:
  assumes fin: "finish pos = Some pos'"
    and s: "0 \<le> s" "s < 64" "bit (pins pos') (nat s)"
  shows "bit (byColor pos' ! nat (turn pos')) (nat s)
         \<and> (\<exists>king x. pos_king_square pos' (turn pos') = Some king
                \<and> 0 \<le> x \<and> x < 64 \<and> pinned_by pos' king x s)"
proof -
  from fin obtain them king p a c where
    them: "opposite (turn pos) = Some them"
    and k: "pos_king_square pos (turn pos) = Some king"
    and fp: "finish_pins pos (turn pos) them king = Some p"
    and p: "pos' = pos\<lparr> pins := p, attacked := a, checkers := c \<rparr>"
    by (auto simp: finish_def bind_eq_Some_conv Let_def)
  have them_eq: "them = 1 - turn pos" and us: "0 \<le> turn pos" "turn pos < 2"
    using them by (auto simp: opposite_def split: if_splits)
  from fp obtain rq bq where
    rq: "pos_pieces_cpp pos them ROOK QUEEN = Some rq"
    and bq: "pos_pieces_cpp pos them BISHOP QUEEN = Some bq"
    and kb: "0 \<le> king" "king < 64"
    and fold: "foldM (pin_step pos (turn pos) king)
         (bb_squares ((rq AND bb_of (\<lambda>t. rook_line king t \<and> slide_free 0 king t))
                       OR (bq AND bb_of (\<lambda>t. bishop_line king t \<and> slide_free 0 king t)))) 0
           = Some p"
    by (auto simp: finish_pins_def bb_rook_attacks_def bb_bishop_attacks_def bind_eq_Some_conv
        Let_def split: if_splits)
  let ?pinners = "(rq AND bb_of (\<lambda>t. rook_line king t \<and> slide_free 0 king t))
                       OR (bq AND bb_of (\<lambda>t. bishop_line king t \<and> slide_free 0 king t))"
  have rq_eq: "rq = byColor pos ! nat them AND (byPiece pos ! 2 OR byPiece pos ! 3)"
    using rq by (auto simp: pos_pieces_cpp_def at_def bind_eq_Some_conv split: if_splits)
  have bq_eq: "bq = byColor pos ! nat them AND (byPiece pos ! 1 OR byPiece pos ! 3)"
    using bq by (auto simp: pos_pieces_cpp_def at_def bind_eq_Some_conv split: if_splits)
  have pinner: "0 \<le> x \<and> x < 64 \<and> bit (byColor pos ! nat them) (nat x)
        \<and> ((rook_line king x \<and> (bit (byPiece pos ! 2) (nat x) \<or> bit (byPiece pos ! 3) (nat x)))
            \<or> (bishop_line king x \<and> (bit (byPiece pos ! 1) (nat x) \<or> bit (byPiece pos ! 3) (nat x))))"
    if "x \<in> set (bb_squares ?pinners)" for x
    using that
    by (auto simp: set_bb_squares bit_or_iff bit_and_iff bit_bb_of rq_eq bq_eq)
  then have lines: "\<forall>x \<in> set (bb_squares ?pinners). rook_line king x \<or> bishop_line king x"
    by blast
  have "\<not> bit (0 :: 64 word) (nat s)" by simp
  from foldM_pin_step [OF fold lines s(1,2) _ this] s(3) p
  obtain x where x: "x \<in> set (bb_squares ?pinners)"
    and own: "bit (byColor pos ! nat (turn pos)) (nat s)"
    and btw: "s \<in> set (between_sqs king x)"
    and only: "\<forall>t \<in> set (between_sqs king x). t \<in> occupied_squares pos \<longrightarrow> t = s"
    by auto
  have occ: "occupied_squares pos' = occupied_squares pos"
    by (simp add: p occupied_squares_def)
  have flds: "byColor pos' = byColor pos" "byPiece pos' = byPiece pos" "turn pos' = turn pos"
    by (simp_all add: p)
  have "pinned_by pos' king x s"
    using pinner [OF x] btw only
    by (auto simp: pinned_by_def them_eq occ flds)
  moreover have "pos_king_square pos' (turn pos') = Some king"
    using k by (simp add: p pos_king_square_def pos_pieces_cp_def)
  ultimately show ?thesis using own pinner [OF x] by (auto simp: p)
qed

theorem finish_pins_invariant_witness:
  "finish N_pinned = Some N_pinned \<and> bit (pins N_pinned) 12
   \<and> bit (byColor N_pinned ! nat (turn N_pinned)) 12
   \<and> pos_king_square N_pinned (turn N_pinned) = Some 4 \<and> pinned_by N_pinned 4 60 12"
proof -
  have f: "finish N_pinned = Some N_pinned" by code_simp
  have b: "bit (pins N_pinned) (nat 12)" by (simp add: N_pinned_def)
  have k: "pos_king_square N_pinned (turn N_pinned) = Some 4" by code_simp
  have p: "pinned_by N_pinned 4 60 12" by code_simp
  from finish_pins_invariant [OF f _ _ b] have "bit (byColor N_pinned ! nat (turn N_pinned)) (nat 12)"
    by simp
  with f b k p show ?thesis by simp
qed

section \<open>The invariant engine: sliding attacks\<close>

text \<open>A square strictly between \<open>a\<close> and \<open>b\<close> cuts the line in two lines of the same kind.\<close>

lemma between_split:
  assumes c: "c \<in> set (between_sqs a b)"
  shows "rook_line a c = rook_line a b" "bishop_line a c = bishop_line a b"
    and "set (between_sqs a b) \<subseteq> set (between_sqs a c) \<union> {c} \<union> set (between_sqs c b)"
proof -
  from c obtain k where line: "rook_line a b \<or> bishop_line a b"
    and k: "1 \<le> k" "k < sq_dist a b" and ck: "c = sq_towards a b k"
    by (auto simp: between_iff)
  from line obtain df dr n where
    d: "df = sgn (sq_file b - sq_file a)" "dr = sgn (sq_rank b - sq_rank a)"
    and n: "n = sq_dist a b" and fb: "sq_file b = sq_file a + n * df"
    and rb: "sq_rank b = sq_rank a + n * dr" and nz: "df \<noteq> 0 \<or> dr \<noteq> 0"
    and rl: "rook_line a b = (df = 0 \<or> dr = 0)" and bl: "bishop_line a b = (df \<noteq> 0 \<and> dr \<noteq> 0)"
    by (rule line_shape)
  have dfc: "df = 0 \<or> df = 1 \<or> df = - 1" and drc: "dr = 0 \<or> dr = 1 \<or> dr = - 1"
    using d by (auto simp: sgn_if)
  have sg: "sgn df = df" "sgn dr = dr" using dfc drc by auto
  have fc: "sq_file c = sq_file a + k * df" and rc: "sq_rank c = sq_rank a + k * dr"
    using towards_coords [OF line, of k] k ck d by simp_all
  have kpos: "sgn k = 1" "\<bar>k\<bar> = k" "0 < k" using k by simp_all
  have npos: "sgn (n - k) = 1" "\<bar>n - k\<bar> = n - k" "0 < n - k" using k n by simp_all
  have fac: "sq_file c - sq_file a = k * df" and rac: "sq_rank c - sq_rank a = k * dr"
    by (simp_all add: fc rc)
  have fcb: "sq_file b - sq_file c = (n - k) * df" and rcb: "sq_rank b - sq_rank c = (n - k) * dr"
    by (simp_all add: fc rc fb rb algebra_simps)
  have sac: "sgn (sq_file c - sq_file a) = df" "sgn (sq_rank c - sq_rank a) = dr"
    by (simp_all only: fac rac sgn_mult kpos sg mult_1)
  have scb: "sgn (sq_file b - sq_file c) = df" "sgn (sq_rank b - sq_rank c) = dr"
    by (simp_all only: fcb rcb sgn_mult npos sg mult_1)
  have ab: "\<bar>df\<bar> = 0 \<or> \<bar>df\<bar> = 1" "\<bar>dr\<bar> = 0 \<or> \<bar>dr\<bar> = 1" "\<bar>df\<bar> \<noteq> 0 \<or> \<bar>dr\<bar> \<noteq> 0"
    using dfc drc nz by auto
  have mx: "max \<bar>df\<bar> \<bar>dr\<bar> = 1" using ab by auto
  have mxm: "max (m * \<bar>df\<bar>) (m * \<bar>dr\<bar>) = m" if "0 < m" for m
    using ab that by auto
  have eqd: "(\<bar>df\<bar> = \<bar>dr\<bar>) = (df \<noteq> 0 \<and> dr \<noteq> 0)" using dfc drc nz by auto
  have fac': "\<bar>sq_file a - sq_file c\<bar> = k * \<bar>df\<bar>" and rac': "\<bar>sq_rank a - sq_rank c\<bar> = k * \<bar>dr\<bar>"
    using fac rac kpos(2) by (simp_all only: abs_minus_commute [of "sq_file a"]
        abs_minus_commute [of "sq_rank a"] abs_mult)
  have fcb': "\<bar>sq_file c - sq_file b\<bar> = (n - k) * \<bar>df\<bar>"
    and rcb': "\<bar>sq_rank c - sq_rank b\<bar> = (n - k) * \<bar>dr\<bar>"
    using fcb rcb npos(2) by (simp_all only: abs_minus_commute [of "sq_file c"]
        abs_minus_commute [of "sq_rank c"] abs_mult)
  have dac: "sq_dist a c = k"
    unfolding sq_dist_def fac' rac' by (rule mxm [OF kpos(3)])
  have dcb: "sq_dist c b = n - k"
    unfolding sq_dist_def fcb' rcb' by (rule mxm [OF npos(3)])
  have ca: "a \<noteq> c" and cb: "c \<noteq> b" using between_not_ends [OF c] by auto
  have z1: "(sq_file a = sq_file c) = (df = 0)" "(sq_rank a = sq_rank c) = (dr = 0)"
    using kpos(3) by (simp_all add: fc rc)
  have z2: "(sq_file c = sq_file b) = (df = 0)" "(sq_rank c = sq_rank b) = (dr = 0)"
    using fcb rcb npos(3) by auto
  show r1: "rook_line a c = rook_line a b"
    using ca by (simp only: rook_line_def [of a c] rl z1 simp_thms)
  have cancel: "(m * \<bar>df\<bar> = m * \<bar>dr\<bar>) = (\<bar>df\<bar> = \<bar>dr\<bar>)" if "0 < m" for m
    using that by simp
  show b1: "bishop_line a c = bishop_line a b"
    using ca by (simp only: bishop_line_def [of a c] bl fac' rac' cancel [OF kpos(3)] eqd simp_thms)
  have r2: "rook_line c b = rook_line a b"
    using cb by (simp only: rook_line_def [of c b] rl z2 simp_thms)
  have b2: "bishop_line c b = bishop_line a b"
    using cb by (simp only: bishop_line_def [of c b] bl fcb' rcb' cancel [OF npos(3)] eqd simp_thms)
  have tac: "sq_towards a c j = sq_towards a b j" for j
    by (simp add: sq_towards_def sac d)
  have tcb: "sq_towards c b j = sq_towards a b (k + j)" for j
  proof -
    have "sq_towards c b j = 8 * (sq_rank c + j * dr) + (sq_file c + j * df)"
      by (simp only: sq_towards_def scb)
    also have "\<dots> = 8 * (sq_rank a + (k + j) * dr) + (sq_file a + (k + j) * df)"
      by (simp add: fc rc algebra_simps)
    also have "\<dots> = sq_towards a b (k + j)"
      by (simp only: sq_towards_def d)
    finally show ?thesis .
  qed
  show "set (between_sqs a b) \<subseteq> set (between_sqs a c) \<union> {c} \<union> set (between_sqs c b)"
  proof
    fix u assume "u \<in> set (between_sqs a b)"
    then obtain j where j: "1 \<le> j" "j < n" and u: "u = sq_towards a b j"
      by (auto simp: between_iff n)
    consider "j < k" | "j = k" | "k < j" by linarith
    then show "u \<in> set (between_sqs a c) \<union> {c} \<union> set (between_sqs c b)"
    proof cases
      case 1
      have "u \<in> set (between_sqs a c)"
        unfolding between_iff using line r1 b1 j 1 by (auto simp: dac tac u)
      then show ?thesis by simp
    next
      case 2
      then show ?thesis by (simp add: u ck)
    next
      case 3
      have "1 \<le> j - k \<and> j - k < sq_dist c b \<and> u = sq_towards c b (j - k)"
        using 3 j by (simp add: dcb tcb u)
      then have "u \<in> set (between_sqs c b)"
        unfolding between_iff using line r2 b2 by blast
      then show ?thesis by simp
    qed
  qed
qed

lemma slide_free_through:
  assumes c: "c \<in> set (between_sqs a b)"
    and 1: "slide_free occ a c" and 2: "\<not> bit occ (nat c)" and 3: "slide_free occ c b"
  shows "slide_free occ a b"
  using between_split(3) [OF c] 1 2 3
  by (auto simp: slide_free_def list_all_iff)

lemma foldM_or_acc:
  "foldM (\<lambda>s a. do { n \<leftarrow> f s; Some (a OR n) }) xs a = Some r \<Longrightarrow> bit a i \<Longrightarrow> bit r i"
proof (induction xs arbitrary: a)
  case Nil
  then show ?case by simp
next
  case (Cons x xs)
  from Cons.prems(1) obtain n where "f x = Some n"
    and "foldM (\<lambda>s a. do { n \<leftarrow> f s; Some (a OR n) }) xs (a OR n) = Some r"
    by (auto simp: bind_eq_Some_conv)
  from Cons.IH [OF this(2)] Cons.prems(2) show ?case by (simp add: bit_or_iff)
qed

lemma foldM_or_elem:
  "foldM (\<lambda>s a. do { n \<leftarrow> f s; Some (a OR n) }) xs a = Some r \<Longrightarrow>
   x \<in> set xs \<Longrightarrow> f x = Some m \<Longrightarrow> bit m i \<Longrightarrow> bit r i"
proof (induction xs arbitrary: a)
  case Nil
  then show ?case by simp
next
  case (Cons y xs)
  from Cons.prems(1) obtain n where fy: "f y = Some n"
    and rest: "foldM (\<lambda>s a. do { n \<leftarrow> f s; Some (a OR n) }) xs (a OR n) = Some r"
    by (auto simp: bind_eq_Some_conv)
  show ?case
  proof (cases "x = y")
    case True
    with fy Cons.prems(3,4) have "bit (a OR n) i" by (simp add: bit_or_iff)
    from foldM_or_acc [OF rest this] show ?thesis .
  next
    case False
    with Cons.prems(2) have "x \<in> set xs" by simp
    from Cons.IH [OF rest this Cons.prems(3,4)] show ?thesis .
  qed
qed

lemma finish_attacked_sliders:
  assumes "finish_attacked pos them = Some a"
  obtains a0 a1 k where
    "pos_pieces_cp pos (1 - them) KING = Some k"
    "foldM (\<lambda>s a. do { n \<leftarrow> bb_rook_attacks s ((byColor pos ! 0 OR byColor pos ! 1) XOR k);
                        Some (a OR n) })
       (bb_squares (byColor pos ! nat them AND (byPiece pos ! 2 OR byPiece pos ! 3))) a0 = Some a1"
    "foldM (\<lambda>s a. do { n \<leftarrow> bb_bishop_attacks s ((byColor pos ! 0 OR byColor pos ! 1) XOR k);
                        Some (a OR n) })
       (bb_squares (byColor pos ! nat them AND (byPiece pos ! 1 OR byPiece pos ! 3))) a1 = Some a"
proof -
  from assms obtain a0 a1 k all us' rm bm where
    "pos_pieces pos = Some all" "opposite them = Some us'"
    "pos_pieces_cp pos us' KING = Some k"
    "pos_pieces_cpp pos them ROOK QUEEN = Some rm"
    "foldM (\<lambda>s a. do { n \<leftarrow> bb_rook_attacks s (all XOR k); Some (a OR n) })
       (bb_squares rm) a0 = Some a1"
    "pos_pieces_cpp pos them BISHOP QUEEN = Some bm"
    "foldM (\<lambda>s a. do { n \<leftarrow> bb_bishop_attacks s (all XOR k); Some (a OR n) })
       (bb_squares bm) a1 = Some a"
    unfolding finish_attacked_def Let_def bind_eq_Some_conv by blast
  moreover from this have "all = byColor pos ! 0 OR byColor pos ! 1"
    "us' = 1 - them"
    "rm = byColor pos ! nat them AND (byPiece pos ! 2 OR byPiece pos ! 3)"
    "bm = byColor pos ! nat them AND (byPiece pos ! 1 OR byPiece pos ! 3)"
    by (auto simp: pos_pieces_def pos_pieces_cpp_def opposite_def at_def bind_eq_Some_conv
        split: if_splits)
  ultimately show ?thesis using that by simp
qed

text \<open>
  C6. The invariant engine removes the king of the side to move from the occupancy before
  it computes the attacks of the enemy sliders. So in every position it returns: when an
  enemy rook or queen (on a rank or file) or an enemy bishop or queen (on a diagonal) stands
  on \<open>x\<close> and gives check to the king, with nothing between them, every square \<open>t\<close> that lies
  behind the king on that line and is reached from the king over empty squares is in the
  attacked set.
\<close>

theorem finish_attacked_through_king:
  assumes fin: "finish pos = Some pos'"
    and king: "pos_king_square pos' (turn pos') = Some king"
    and x: "0 \<le> x" "x < 64" "bit (byColor pos' ! nat (1 - turn pos')) (nat x)"
    and slider:
      "(rook_line x king
          \<and> (bit (byPiece pos' ! nat ROOK) (nat x) \<or> bit (byPiece pos' ! nat QUEEN) (nat x)))
       \<or> (bishop_line x king
          \<and> (bit (byPiece pos' ! nat BISHOP) (nat x) \<or> bit (byPiece pos' ! nat QUEEN) (nat x)))"
    and check: "slide_free (byColor pos' ! 0 OR byColor pos' ! 1) x king"
    and t: "0 \<le> t" "t < 64" "king \<in> set (between_sqs x t)"
    and beyond: "slide_free (byColor pos' ! 0 OR byColor pos' ! 1) king t"
  shows "bit (attacked pos') (nat t)"
proof -
  from fin obtain them p a c where
    them: "opposite (turn pos) = Some them"
    and fa: "finish_attacked pos them = Some a"
    and p: "pos' = pos\<lparr> pins := p, attacked := a, checkers := c \<rparr>"
    by (auto simp: finish_def bind_eq_Some_conv Let_def)
  have flds: "byColor pos' = byColor pos" "byPiece pos' = byPiece pos" "turn pos' = turn pos"
    "attacked pos' = a"
    by (simp_all add: p)
  have them_eq: "them = 1 - turn pos" "1 - them = turn pos"
    using them by (auto simp: opposite_def split: if_splits)
  from fa obtain a0 a1 k where
    k0: "pos_pieces_cp pos (1 - them) KING = Some k"
    and rk: "foldM (\<lambda>s a. do { n \<leftarrow> bb_rook_attacks s ((byColor pos ! 0 OR byColor pos ! 1) XOR k);
                        Some (a OR n) })
       (bb_squares (byColor pos ! nat them AND (byPiece pos ! 2 OR byPiece pos ! 3))) a0 = Some a1"
    and bs: "foldM (\<lambda>s a. do { n \<leftarrow> bb_bishop_attacks s ((byColor pos ! 0 OR byColor pos ! 1) XOR k);
                        Some (a OR n) })
       (bb_squares (byColor pos ! nat them AND (byPiece pos ! 1 OR byPiece pos ! 3))) a1 = Some a"
    by (rule finish_attacked_sliders)
  have k: "pos_pieces_cp pos (turn pos) KING = Some k"
    using k0 by (simp add: them_eq(1))
  let ?all = "byColor pos ! 0 OR byColor pos ! 1"
  let ?occ = "?all XOR k"
  have kk: "pos_king_square pos (turn pos) = Some king"
    using king by (simp add: flds pos_king_square_def pos_pieces_cp_def)
  then have "king \<in> set (bb_squares k)"
    using k by (auto simp: pos_king_square_def bb_lsb_def bind_eq_Some_conv
        split: list.splits if_splits)
  then have kbit: "bit k (nat king)" by (simp add: set_bb_squares)
  have "turn pos = 0 \<or> turn pos = 1"
    using them by (auto simp: opposite_def split: if_splits)
  then have sub: "bit k i \<Longrightarrow> bit ?all i" for i
    using k by (auto simp: pos_pieces_cp_def at_def bind_eq_Some_conv
        bit_and_iff bit_or_iff split: if_splits)
  have occ: "bit ?occ i \<Longrightarrow> bit ?all i" for i
    using sub [of i] by (auto simp: bit_xor_iff)
  have 1: "slide_free ?occ x king"
    using check occ by (auto simp: slide_free_def list_all_iff flds)
  have 2: "\<not> bit ?occ (nat king)"
    using kbit sub [of "nat king"] by (simp add: bit_xor_iff)
  have 3: "slide_free ?occ king t"
    using beyond occ by (auto simp: slide_free_def list_all_iff flds)
  have free: "slide_free ?occ x t" by (rule slide_free_through [OF t(3) 1 2 3])
  have tb: "nat t < 64" using t by simp
  from slider show ?thesis
  proof
    assume r: "rook_line x king
          \<and> (bit (byPiece pos' ! nat ROOK) (nat x) \<or> bit (byPiece pos' ! nat QUEEN) (nat x))"
    then have "rook_line x t" using between_split(1) [OF t(3)] by simp
    then have bt: "bit (bb_of (\<lambda>t. rook_line x t \<and> slide_free ?occ x t)) (nat t)"
      using free t by (simp add: bit_bb_of)
    have att: "bb_rook_attacks x ?occ = Some (bb_of (\<lambda>t. rook_line x t \<and> slide_free ?occ x t))"
      using x by (simp add: bb_rook_attacks_def)
    have mem: "x \<in> set (bb_squares (byColor pos ! nat them AND (byPiece pos ! 2 OR byPiece pos ! 3)))"
      using x r by (auto simp: set_bb_squares bit_and_iff bit_or_iff flds them_eq)
    have "bit a1 (nat t)" by (rule foldM_or_elem [OF rk mem att bt])
    from foldM_or_acc [OF bs this] show ?thesis by (simp add: flds)
  next
    assume b: "bishop_line x king
          \<and> (bit (byPiece pos' ! nat BISHOP) (nat x) \<or> bit (byPiece pos' ! nat QUEEN) (nat x))"
    then have "bishop_line x t" using between_split(2) [OF t(3)] by simp
    then have bt: "bit (bb_of (\<lambda>t. bishop_line x t \<and> slide_free ?occ x t)) (nat t)"
      using free t by (simp add: bit_bb_of)
    have att: "bb_bishop_attacks x ?occ = Some (bb_of (\<lambda>t. bishop_line x t \<and> slide_free ?occ x t))"
      using x by (simp add: bb_bishop_attacks_def)
    have mem: "x \<in> set (bb_squares (byColor pos ! nat them AND (byPiece pos ! 1 OR byPiece pos ! 3)))"
      using x b by (auto simp: set_bb_squares bit_and_iff bit_or_iff flds them_eq)
    from foldM_or_elem [OF bs mem att bt] show ?thesis by (simp add: flds)
  qed
qed

theorem finish_attacked_through_king_witness:
  "finish R_through = Some R_through \<and> pos_king_square R_through (turn R_through) = Some 12
   \<and> bit (byColor R_through ! nat (1 - turn R_through)) 28
   \<and> rook_line 28 12 \<and> bit (byPiece R_through ! nat ROOK) 28
   \<and> slide_free (byColor R_through ! 0 OR byColor R_through ! 1) 28 12
   \<and> 12 \<in> set (between_sqs 28 4)
   \<and> slide_free (byColor R_through ! 0 OR byColor R_through ! 1) 12 4
   \<and> bit (attacked R_through) 4"
proof -
  have f: "finish R_through = Some R_through" by code_simp
  have k: "pos_king_square R_through (turn R_through) = Some 12" by code_simp
  have x: "bit (byColor R_through ! nat (1 - turn R_through)) (nat 28)" by code_simp
  have r: "rook_line 28 12" by code_simp
  have rb: "bit (byPiece R_through ! nat ROOK) (nat 28)" by code_simp
  have c: "slide_free (byColor R_through ! 0 OR byColor R_through ! 1) 28 12" by code_simp
  have b: "12 \<in> set (between_sqs 28 4)" by code_simp
  have y: "slide_free (byColor R_through ! 0 OR byColor R_through ! 1) 12 4" by code_simp
  from r rb have s: "(rook_line 28 12
          \<and> (bit (byPiece R_through ! nat ROOK) (nat 28) \<or> bit (byPiece R_through ! nat QUEEN) (nat 28)))
       \<or> (bishop_line 28 12
          \<and> (bit (byPiece R_through ! nat BISHOP) (nat 28) \<or> bit (byPiece R_through ! nat QUEEN) (nat 28)))"
    by simp
  from finish_attacked_through_king [OF f k _ _ x s c _ _ b y]
  have "bit (attacked R_through) (nat 4)" by simp
  with f k x r rb c b y show ?thesis by simp
qed

section \<open>The check invariant on decoded records\<close>

lemma cont_assoc: "cont (cont m f) g = cont m (\<lambda>x. cont (f x) g)"
  by (simp add: cont_def split: option.splits)

lemma pos_set_fields: "pos_set Z fen chess960' = cont (set_fields Z fen chess960') set_verify"
  by (simp add: pos_set_def set_fields_def cont_assoc split_def)

lemma finish_checkers_value:
  "finish_checkers pos us them king a = do {
     t \<leftarrow> bb_test a king;
     if t then do {
       c \<leftarrow> finish_checkers_value pos us them king;
       tk \<leftarrow> pos_pieces_cp pos them KING;
       ka \<leftarrow> KingAttacks king;
       assert (tk AND ka = 0);
       assert (c \<noteq> 0 \<and> bb_count c \<le> 2);
       Some c
     } else Some 0
   }"
  by (simp add: finish_checkers_def finish_checkers_value_def Let_def cong: if_cong)


text \<open>
  C4. The record \<^verbatim>\<open>8/8/8/8/8/8/4k3/4K3 w - - 0 1\<close> (the two kings on adjacent squares)
  passes every check of the decoder and reaches the invariant engine. There the square of
  the king of the side to move is in the attacked set that the engine computes, and the
  checkers that it computes are empty: the check invariant does not hold of the values
  computed. The engine's own assertions fail, so it stops instead of returning a position.
\<close>

theorem pos_set_adjacent_kings_unchecked:
  "set_fields Z0 ''8/8/8/8/8/8/4k3/4K3 w - - 0 1'' False = Some (Some KK_adjacent)
   \<and> piece_counts_bad KK_adjacent WHITE = Some False
   \<and> piece_counts_bad KK_adjacent BLACK = Some False
   \<and> pawn_ranks_bad KK_adjacent = Some False
   \<and> castle_rooks_ok KK_adjacent = Some True
   \<and> ep_square_ok KK_adjacent = Some True
   \<and> turn KK_adjacent = WHITE \<and> pos_king_square KK_adjacent WHITE = Some 4
   \<and> (\<exists>a. finish_attacked KK_adjacent BLACK = Some a \<and> bit a 4)
   \<and> finish_checkers_value KK_adjacent WHITE BLACK 4 = Some 0
   \<and> finish KK_adjacent = None
   \<and> pos_set Z0 ''8/8/8/8/8/8/4k3/4K3 w - - 0 1'' False = None"
proof -
  have 1: "set_fields Z0 ''8/8/8/8/8/8/4k3/4K3 w - - 0 1'' False = Some (Some KK_adjacent)"
    by code_simp
  have 2: "piece_counts_bad KK_adjacent WHITE = Some False" by code_simp
  have 3: "piece_counts_bad KK_adjacent BLACK = Some False" by code_simp
  have 4: "pawn_ranks_bad KK_adjacent = Some False" by code_simp
  have 5: "castle_rooks_ok KK_adjacent = Some True" by code_simp
  have 6: "ep_square_ok KK_adjacent = Some True" by code_simp
  have 7: "turn KK_adjacent = WHITE" by (simp add: KK_adjacent_def)
  have 8: "pos_king_square KK_adjacent WHITE = Some 4" by code_simp
  have 9: "finish_attacked KK_adjacent BLACK = Some 3680312" by code_simp
  have 10: "bit (3680312 :: 64 word) 4" by code_simp
  have 11: "finish_checkers_value KK_adjacent WHITE BLACK 4 = Some 0" by code_simp
  have 12: "finish KK_adjacent = None" by code_simp
  have 13: "pos_set Z0 ''8/8/8/8/8/8/4k3/4K3 w - - 0 1'' False = None"
  proof -
    have "set_verify KK_adjacent = None" by code_simp
    then show ?thesis by (simp add: pos_set_fields 1 cont_def)
  qed
  from 9 10 have "\<exists>a. finish_attacked KK_adjacent BLACK = Some a \<and> bit a 4" by blast
  with 1 2 3 4 5 6 7 8 11 12 13 show ?thesis by blast
qed

theorem pos_set_adjacent_kings_unchecked_witness:
  "(\<exists>a. finish_attacked KK_adjacent BLACK = Some a \<and> bit a 4)
   \<and> finish_checkers_value KK_adjacent WHITE BLACK 4 = Some 0
   \<and> set_verify KK_adjacent = None"
proof -
  have "set_verify KK_adjacent = None" by code_simp
  with pos_set_adjacent_kings_unchecked show ?thesis by blast
qed

text \<open>
  The same with three checkers: the record \<^verbatim>\<open>4r3/8/8/8/7b/3n4/8/4K2k w - - 0 1\<close> passes
  every check of the decoder, and the engine computes three checkers (d3, h4, e8) for the
  king on e1.
\<close>

lemma pos_set_three_checkers:
  "set_fields Z0 ''4r3/8/8/8/7b/3n4/8/4K2k w - - 0 1'' False = Some (Some K_three_checks)
   \<and> piece_counts_bad K_three_checks WHITE = Some False
   \<and> piece_counts_bad K_three_checks BLACK = Some False
   \<and> pawn_ranks_bad K_three_checks = Some False
   \<and> castle_rooks_ok K_three_checks = Some True
   \<and> ep_square_ok K_three_checks = Some True
   \<and> pos_king_square K_three_checks (turn K_three_checks) = Some 4
   \<and> bb_squares (the (finish_checkers_value K_three_checks WHITE BLACK 4)) = [19, 31, 60]
   \<and> finish K_three_checks = None"
  by code_simp

section \<open>The board as a map\<close>

lemma cnt_le1_unique:
  "cnt bs s \<le> 1 \<Longrightarrow> i < length bs \<Longrightarrow> j < length bs \<Longrightarrow>
   bit (bs ! i) (nat s) \<Longrightarrow> bit (bs ! j) (nat s) \<Longrightarrow> i = j"
proof (induction bs arbitrary: i j)
  case Nil
  then show ?case by simp
next
  case (Cons b bs)
  have tl0: "cnt bs s = 0" if "bit b (nat s)"
    using Cons.prems(1) that by (simp add: cnt_def)
  have tl1: "cnt bs s \<le> 1" using Cons.prems(1) by (simp add: cnt_def split: if_splits)
  show ?case
  proof (cases i)
    case i0: 0
    show ?thesis
    proof (cases j)
      case 0
      with i0 show ?thesis by simp
    next
      case (Suc j')
      from i0 Cons.prems(4) have "bit b (nat s)" by simp
      from tl0 [OF this] Suc Cons.prems(3,5) show ?thesis by (auto simp: cnt_zero_iff)
    qed
  next
    case iS: (Suc i')
    show ?thesis
    proof (cases j)
      case 0
      with Cons.prems(5) have "bit b (nat s)" by simp
      from tl0 [OF this] iS Cons.prems(2,4) show ?thesis by (auto simp: cnt_zero_iff)
    next
      case (Suc j')
      from Cons.IH [OF tl1, of i' j'] iS Suc Cons.prems(2-5) show ?thesis by simp
    qed
  qed
qed

lemma find_unique:
  "x \<in> set xs \<Longrightarrow> P x \<Longrightarrow> (\<And>y. y \<in> set xs \<Longrightarrow> P y \<Longrightarrow> y = x) \<Longrightarrow> find P xs = Some x"
proof (induction xs)
  case Nil
  then show ?case by simp
next
  case (Cons a xs)
  show ?case
  proof (cases "P a")
    case True
    with Cons.prems(3) [of a] have "a = x" by simp
    with True show ?thesis by simp
  next
    case False
    with Cons.prems(1,2) have "x \<in> set xs" by auto
    from Cons.IH [OF this Cons.prems(2)] Cons.prems(3) False show ?thesis by simp
  qed
qed

lemma find_SomeD: "find P xs = Some x \<Longrightarrow> x \<in> set xs \<and> P x"
  by (induction xs) (auto split: if_splits)

lemma piece_at_SomeD:
  assumes "piece_at pos s = Some (c, p)"
  shows "0 \<le> s \<and> s < 64 \<and> 0 \<le> c \<and> c < 2 \<and> 0 \<le> p \<and> p < 6
         \<and> bit (byColor pos ! nat c) (nat s) \<and> bit (byPiece pos ! nat p) (nat s)"
proof -
  from assms have s: "0 \<le> s \<and> s < 64"
    by (simp add: piece_at_def split: if_splits del: find.simps)
  from assms s have fc: "find (\<lambda>c. bit (byColor pos ! nat c) (nat s)) [0, 1] = Some c"
    and fp: "find (\<lambda>p. bit (byPiece pos ! nat p) (nat s)) [0, 1, 2, 3, 4, 5] = Some p"
    by (simp_all add: piece_at_def split: option.splits del: find.simps)
  from find_SomeD [OF fc] have "(c = 0 \<or> c = 1) \<and> bit (byColor pos ! nat c) (nat s)" by simp
  moreover from find_SomeD [OF fp]
  have "(p = 0 \<or> p = 1 \<or> p = 2 \<or> p = 3 \<or> p = 4 \<or> p = 5) \<and> bit (byPiece pos ! nat p) (nat s)"
    by simp
  ultimately show ?thesis using s by auto
qed

lemma board_ok_unique:
  assumes ok: "board_ok pos" and s: "0 \<le> s" "s < 64"
  shows "bit (byColor pos ! nat c) (nat s) \<Longrightarrow> bit (byColor pos ! nat c') (nat s) \<Longrightarrow>
         0 \<le> c \<Longrightarrow> c < 2 \<Longrightarrow> 0 \<le> c' \<Longrightarrow> c' < 2 \<Longrightarrow> c = c'"
    and "bit (byPiece pos ! nat p) (nat s) \<Longrightarrow> bit (byPiece pos ! nat p') (nat s) \<Longrightarrow>
         0 \<le> p \<Longrightarrow> p < 6 \<Longrightarrow> 0 \<le> p' \<Longrightarrow> p' < 6 \<Longrightarrow> p = p'"
proof -
  from ok s have len: "length (byColor pos) = 2" "length (byPiece pos) = 6"
    and c1: "cnt (byColor pos) s \<le> 1" and c2: "cnt (byPiece pos) s \<le> 1"
    by (auto simp: board_ok_iff)
  have inj: "nat a = nat b \<Longrightarrow> 0 \<le> a \<Longrightarrow> 0 \<le> b \<Longrightarrow> a = b" for a b :: int by simp
  show "c = c'" if "bit (byColor pos ! nat c) (nat s)" "bit (byColor pos ! nat c') (nat s)"
    "0 \<le> c" "c < 2" "0 \<le> c'" "c' < 2"
  proof -
    have "nat c < length (byColor pos)" "nat c' < length (byColor pos)"
      using that len by simp_all
    from cnt_le1_unique [OF c1 this that(1,2)] that show ?thesis by (intro inj)
  qed
  show "p = p'" if "bit (byPiece pos ! nat p) (nat s)" "bit (byPiece pos ! nat p') (nat s)"
    "0 \<le> p" "p < 6" "0 \<le> p'" "p' < 6"
  proof -
    have "nat p < length (byPiece pos)" "nat p' < length (byPiece pos)"
      using that len by simp_all
    from cnt_le1_unique [OF c2 this that(1,2)] that show ?thesis by (intro inj)
  qed
qed

lemma piece_at_SomeI:
  assumes ok: "board_ok pos" and s: "0 \<le> s" "s < 64"
    and c: "0 \<le> c" "c < 2" and p: "0 \<le> p" "p < 6"
    and bc: "bit (byColor pos ! nat c) (nat s)" and bp: "bit (byPiece pos ! nat p) (nat s)"
  shows "piece_at pos s = Some (c, p)"
proof -
  have "find (\<lambda>c. bit (byColor pos ! nat c) (nat s)) [0, 1] = Some c"
  proof (rule find_unique)
    show "c \<in> set [0, 1]" using c by auto
    show "bit (byColor pos ! nat c) (nat s)" by (rule bc)
    fix y assume "y \<in> set [0, 1]" "bit (byColor pos ! nat y) (nat s)"
    then show "y = c" using board_ok_unique(1) [OF ok s, of y c] bc c by auto
  qed
  moreover have "find (\<lambda>p. bit (byPiece pos ! nat p) (nat s)) [0, 1, 2, 3, 4, 5] = Some p"
  proof (rule find_unique)
    show "p \<in> set [0, 1, 2, 3, 4, 5]" using p by auto
    show "bit (byPiece pos ! nat p) (nat s)" by (rule bp)
    fix y assume "y \<in> set [0, 1, 2, 3, 4, 5]" "bit (byPiece pos ! nat y) (nat s)"
    then show "y = p" using board_ok_unique(2) [OF ok s, of y p] bp p by auto
  qed
  ultimately show ?thesis using s by (simp add: piece_at_def del: find.simps)
qed


text \<open>On an empty square no colour set and no piece set has a bit.\<close>

lemma piece_at_None_iff:
  assumes ok: "board_ok pos" and s: "0 \<le> s" "s < 64"
  shows "(piece_at pos s = None) = (cnt (byColor pos) s = 0)"
proof
  assume n: "piece_at pos s = None"
  show "cnt (byColor pos) s = 0"
  proof (rule ccontr)
    assume nz: "cnt (byColor pos) s \<noteq> 0"
    from ok s have len: "length (byColor pos) = 2" "length (byPiece pos) = 6"
      and eq: "cnt (byColor pos) s = cnt (byPiece pos) s"
      by (auto simp: board_ok_iff)
    from nz obtain i where i: "i < 2" "bit (byColor pos ! i) (nat s)"
      by (auto simp: cnt_zero_iff len)
    from nz eq obtain j where j: "j < 6" "bit (byPiece pos ! j) (nat s)"
      by (auto simp: cnt_zero_iff len)
    have "piece_at pos s = Some (int i, int j)"
      by (rule piece_at_SomeI [OF ok s]) (use i j in auto)
    with n show False by simp
  qed
next
  assume z: "cnt (byColor pos) s = 0"
  from ok have len: "length (byColor pos) = 2" by (simp add: board_ok_iff)
  from z have "\<not> bit (byColor pos ! 0) (nat s)" "\<not> bit (byColor pos ! 1) (nat s)"
    by (auto simp: cnt_zero_iff len)
  then show "piece_at pos s = None" by (simp add: piece_at_def)
qed

lemma piece_at_NoneD:
  assumes ok: "board_ok pos" and s: "0 \<le> s" "s < 64" and n: "piece_at pos s = None"
  shows "cnt (byColor pos) s = 0" "cnt (byPiece pos) s = 0"
    "i < 2 \<Longrightarrow> \<not> bit (byColor pos ! i) (nat s)" "j < 6 \<Longrightarrow> \<not> bit (byPiece pos ! j) (nat s)"
proof -
  from ok s have len: "length (byColor pos) = 2" "length (byPiece pos) = 6"
    and eq: "cnt (byColor pos) s = cnt (byPiece pos) s"
    by (auto simp: board_ok_iff)
  show 1: "cnt (byColor pos) s = 0" using piece_at_None_iff [OF ok s] n by simp
  with eq show 2: "cnt (byPiece pos) s = 0" by simp
  show "i < 2 \<Longrightarrow> \<not> bit (byColor pos ! i) (nat s)" using 1 by (simp add: cnt_zero_iff len)
  show "j < 6 \<Longrightarrow> \<not> bit (byPiece pos ! j) (nat s)" using 2 by (simp add: cnt_zero_iff len)
qed






section \<open>Sums by exclusive or\<close>







section \<open>Putting and removing a piece\<close>








section \<open>Reading the board\<close>





lemma piece_bit_iff:
  assumes ok: "board_ok pos" and s: "0 \<le> s" "s < 64" and p: "0 \<le> p" "p < 6"
  shows "bit (byPiece pos ! nat p) (nat s) = (\<exists>c. piece_at pos s = Some (c, p))"
proof
  assume b: "bit (byPiece pos ! nat p) (nat s)"
  have "piece_at pos s \<noteq> None"
  proof
    assume "piece_at pos s = None"
    moreover have "nat p < 6" using p by arith
    ultimately show False using piece_at_NoneD(4) [OF ok s, of "nat p"] b by blast
  qed
  then obtain c p' where at: "piece_at pos s = Some (c, p')" by auto
  from piece_at_SomeD [OF at] board_ok_unique(2) [OF ok s, of p p'] b p have "p' = p" by simp
  with at show "\<exists>c. piece_at pos s = Some (c, p)" by blast
next
  assume "\<exists>c. piece_at pos s = Some (c, p)"
  then show "bit (byPiece pos ! nat p) (nat s)" using piece_at_SomeD by blast
qed


section \<open>Playing a move keeps the board well formed\<close>

lemma board_ok_upd [simp]:
  "board_ok (pos\<lparr> rule50 := a \<rparr>) = board_ok pos"
  "board_ok (pos\<lparr> epSquare := b \<rparr>) = board_ok pos"
  "board_ok (pos\<lparr> castleRooks := c \<rparr>) = board_ok pos"
  "board_ok (pos\<lparr> key := d \<rparr>) = board_ok pos"
  "board_ok (pos\<lparr> turn := e \<rparr>) = board_ok pos"
  "board_ok (pos\<lparr> chess960 := f \<rparr>) = board_ok pos"
  "board_ok (pos\<lparr> fullMove := g \<rparr>) = board_ok pos"
  by (simp_all add: board_ok_def)

lemma piece_at_upd [simp]:
  "piece_at (pos\<lparr> rule50 := a \<rparr>) = piece_at pos"
  "piece_at (pos\<lparr> epSquare := b \<rparr>) = piece_at pos"
  "piece_at (pos\<lparr> castleRooks := c \<rparr>) = piece_at pos"
  "piece_at (pos\<lparr> key := d \<rparr>) = piece_at pos"
  "piece_at (pos\<lparr> turn := e \<rparr>) = piece_at pos"
  "piece_at (pos\<lparr> chess960 := f \<rparr>) = piece_at pos"
  "piece_at (pos\<lparr> fullMove := g \<rparr>) = piece_at pos"
  by (simp_all add: piece_at_def fun_eq_iff)

lemma placement_key_upd [simp]:
  "placement_key Z (pos\<lparr> rule50 := a \<rparr>) = placement_key Z pos"
  "placement_key Z (pos\<lparr> epSquare := b \<rparr>) = placement_key Z pos"
  "placement_key Z (pos\<lparr> castleRooks := c \<rparr>) = placement_key Z pos"
  "placement_key Z (pos\<lparr> key := d \<rparr>) = placement_key Z pos"
  "placement_key Z (pos\<lparr> turn := e \<rparr>) = placement_key Z pos"
  "placement_key Z (pos\<lparr> chess960 := f \<rparr>) = placement_key Z pos"
  "placement_key Z (pos\<lparr> fullMove := g \<rparr>) = placement_key Z pos"
  by (simp_all add: placement_key_def placed_def)











section \<open>Decoding a record builds a well-formed board\<close>















section \<open>The board invariants of the two constructors\<close>







section \<open>The hash key\<close>






end
